theory Spec2Isabelle
  imports Main "HOL-Library.Sublist"
begin

section \<open>JavaScript strings\<close>

text \<open>
  A string is a list of characters. The patterns the sources search for are ASCII
  constants, so searching the list of characters finds what the source finds.
\<close>

definition endsWith :: "string \<Rightarrow> string \<Rightarrow> bool" where
  "endsWith s pat = suffix pat s"

definition str_includes :: "string \<Rightarrow> string \<Rightarrow> bool" where
  "str_includes s pat = sublist pat s"

text \<open>\<^verbatim>\<open>s.replace(pat, rep)\<close> with a string pattern: the first occurrence only.\<close>

fun str_replace :: "string \<Rightarrow> string \<Rightarrow> string \<Rightarrow> string" where
  "str_replace pat rep [] = (if pat = [] then rep else [])"
| "str_replace pat rep (c # cs) =
     (if prefix pat (c # cs) then rep @ drop (length pat) (c # cs)
      else c # str_replace pat rep cs)"

text \<open>\<^verbatim>\<open>s.split(sep)[0]\<close> for a non-empty separator: the text before its first occurrence,
  the whole string when it does not occur.\<close>

fun split_first :: "string \<Rightarrow> string \<Rightarrow> string" where
  "split_first sep [] = []"
| "split_first sep (c # cs) =
     (if prefix sep (c # cs) then [] else c # split_first sep cs)"

section \<open>The build trigger of the server (app.js)\<close>

text \<open>
  The process-wide state: \<^verbatim>\<open>buildLogs\<close> and \<^verbatim>\<open>buildProcess\<close>. The handle is \<^verbatim>\<open>null\<close>,
  \<^verbatim>\<open>undefined\<close> (what \<^verbatim>\<open>triggerOfflineBuild\<close> returns when the script is missing) or a
  child process with its \<^verbatim>\<open>killed\<close> flag and \<^verbatim>\<open>exitCode\<close>.
\<close>

record child_process =
  killed :: bool
  proc_exitCode :: "int option"

datatype handle = HNull | HUndefined | HChild child_process

record server_state =
  buildLogs :: "string list"
  buildProcess :: handle

text \<open>\<^verbatim>\<open>appendLog\<close>: push the stamped line, then drop the oldest beyond 1000 lines.\<close>

definition appendLog :: "string \<Rightarrow> string \<Rightarrow> string list \<Rightarrow> string list" where
  "appendLog timestamp msg logs =
     (let logs' = logs @ [''['' @ timestamp @ ''] '' @ msg]
      in if length logs' > 1000 then tl logs' else logs')"

text \<open>\<^verbatim>\<open>triggerOfflineBuild\<close>: the new state and the returned handle. \<^verbatim>\<open>fork\<close> gives a
  child that is neither killed nor exited.\<close>

definition triggerOfflineBuild :: "bool \<Rightarrow> string \<Rightarrow> server_state \<Rightarrow> server_state \<times> handle" where
  "triggerOfflineBuild scriptExists timestamp s =
     (if \<not> scriptExists then (s, HUndefined)
      else
        let p = HChild \<lparr>killed = False, proc_exitCode = None\<rparr>
        in (\<lparr>buildLogs = appendLog timestamp ''Starting new build process...'' [],
             buildProcess = p\<rparr>, p))"

text \<open>The guard of the POST handler:
  \<^verbatim>\<open>buildProcess && !buildProcess.killed && buildProcess.exitCode === null\<close>.\<close>

definition run_active :: "server_state \<Rightarrow> bool" where
  "run_active s =
     (case buildProcess s of
        HChild p \<Rightarrow> \<not> killed p \<and> proc_exitCode p = None
      | _ \<Rightarrow> False)"

definition handle_truthy :: "handle \<Rightarrow> bool" where
  "handle_truthy h = (case h of HChild p \<Rightarrow> True | _ \<Rightarrow> False)"

text \<open>POST /api/admin/build-offline: the response (status, message) and the new state.
  The handler calls \<^verbatim>\<open>triggerOfflineBuild()\<close> and drops what it returns.\<close>

definition post_build_offline ::
  "bool \<Rightarrow> string \<Rightarrow> server_state \<Rightarrow> (nat \<times> string) \<times> server_state" where
  "post_build_offline scriptExists timestamp s =
     (if run_active s then ((409, ''A build process is already running.''), s)
      else
        let s' = fst (triggerOfflineBuild scriptExists timestamp s)
        in if \<not> handle_truthy (buildProcess s') then ((500, ''Build script not found.''), s')
           else ((202, ''Build pipeline started asynchronously.''), s'))"

text \<open>The callbacks of the child: a chunk of output appends its non-blank lines (here the
  lines are given already split and filtered), the exit appends its lines and clears the
  handle.\<close>

datatype child_event =
    Stdout string "string list"
  | Stderr string "string list"
  | Exit string int

fun on_child_event :: "child_event \<Rightarrow> server_state \<Rightarrow> server_state" where
  "on_child_event (Stdout timestamp ls) s =
     s\<lparr>buildLogs := fold (\<lambda>l. appendLog timestamp l) ls (buildLogs s)\<rparr>"
| "on_child_event (Stderr timestamp ls) s =
     s\<lparr>buildLogs := fold (\<lambda>l. appendLog timestamp (''ERROR: '' @ l)) ls (buildLogs s)\<rparr>"
| "on_child_event (Exit timestamp code) s =
     (let l1 = appendLog timestamp ''Bootstrap build process exited'' (buildLogs s);
          l2 = (if code = 0 then appendLog timestamp ''Initial build complete. Data is now available.'' l1
                else l1)
      in \<lparr>buildLogs = l2, buildProcess = HNull\<rparr>)"

definition is_exit :: "child_event \<Rightarrow> bool" where
  "is_exit e = (case e of Exit t c \<Rightarrow> True | _ \<Rightarrow> False)"

section \<open>The pipeline (scripts/build\_pipeline.js)\<close>

text \<open>
  The pipeline talks to the world through \<^verbatim>\<open>execSync\<close>, the file system and the bundler.
  The environment records what each of them answers; the run records which of them were
  reached, in order, the exit code of the process and the version file it wrote.
\<close>

datatype cmd_result = Throws | Returns string

datatype stage =
    MkdirPublic | MkdirParent | GitClone | GitPull | RevParse | GitShow
  | MasterFetch | CleanupBilara | BuildIndex | FetchLegacy | GenerateBundle | WriteVersion

record pipeline_env =
  publicDirExists :: bool
  mkdirPublicOk :: bool
  gitDirExists :: bool
  parentDirExists :: bool
  mkdirParentOk :: bool
  gitClone :: cmd_result
  gitPull :: cmd_result
  indexExists :: bool
  now_step2 :: string
  revParse :: cmd_result
  gitShow :: cmd_result
  now_version :: string
  masterFetch :: cmd_result
  cleanupBilara :: cmd_result
  buildIndexCmd :: cmd_result
  fetchLegacy :: cmd_result
  generateBundle :: "string option"
  writeVersionOk :: bool

record version_info =
  commit :: string
  date :: string
  updated_at :: string

record pipeline_run =
  exit_code :: int
  stages :: "stage list"
  versionFile :: "version_info option"

text \<open>Step 1. \<^verbatim>\<open>Inl\<close> is a run that ended here (a throw reaches the final
  \<^verbatim>\<open>catch\<close> and exits 1; the early exit is \<^verbatim>\<open>process.exit(0)\<close>), \<^verbatim>\<open>Inr\<close> the stages
  reached so far when the build goes on. A failed pull is caught and the build goes on.\<close>

definition sync_git :: "pipeline_env \<Rightarrow> stage list \<Rightarrow> pipeline_run + stage list" where
  "sync_git env tr =
     (if \<not> gitDirExists env then
        (let tr1 = (if parentDirExists env then tr else tr @ [MkdirParent])
         in if \<not> parentDirExists env \<and> \<not> mkdirParentOk env
            then Inl \<lparr>exit_code = 1, stages = tr1, versionFile = None\<rparr>
            else (case gitClone env of
                    Throws \<Rightarrow> Inl \<lparr>exit_code = 1, stages = tr1 @ [GitClone], versionFile = None\<rparr>
                  | Returns out \<Rightarrow> Inr (tr1 @ [GitClone])))
      else
        (case gitPull env of
           Throws \<Rightarrow> Inr (tr @ [GitPull])
         | Returns pullOutput \<Rightarrow>
             if str_includes pullOutput ''Already up to date.'' \<and> indexExists env
             then Inl \<lparr>exit_code = 0, stages = tr @ [GitPull], versionFile = None\<rparr>
             else Inr (tr @ [GitPull])))"

text \<open>Step 2: the commit hash and date, with their defaults. The hash is assigned before
  the second command runs, so a failure of the second keeps the hash.\<close>

definition commit_info :: "pipeline_env \<Rightarrow> stage list \<Rightarrow> (string \<times> string) \<times> stage list" where
  "commit_info env tr =
     (case revParse env of
        Throws \<Rightarrow> ((''unknown'', now_step2 env), tr @ [RevParse])
      | Returns h \<Rightarrow>
          (case gitShow env of
             Throws \<Rightarrow> ((h, now_step2 env), tr @ [RevParse, GitShow])
           | Returns d \<Rightarrow> ((h, d), tr @ [RevParse, GitShow])))"

text \<open>Steps 3 to 6: one \<^verbatim>\<open>runCommand\<close> after the other; the first that throws ends the
  sequence (\<^verbatim>\<open>Inl\<close>).\<close>

fun run_commands :: "(stage \<times> cmd_result) list \<Rightarrow> stage list \<Rightarrow> stage list + stage list" where
  "run_commands [] tr = Inr tr"
| "run_commands ((st, r) # cs) tr =
     (case r of
        Throws \<Rightarrow> Inl (tr @ [st])
      | Returns out \<Rightarrow> run_commands cs (tr @ [st]))"

text \<open>Steps 7 and 8 sit in one \<^verbatim>\<open>try\<close>: the version file is written after the bundle's
  promise resolves, and a rejection or a failed write exits 1.\<close>

definition bundle_and_stamp :: "pipeline_env \<Rightarrow> version_info \<Rightarrow> stage list \<Rightarrow> pipeline_run" where
  "bundle_and_stamp env versionInfo tr =
     (case generateBundle env of
        None \<Rightarrow> \<lparr>exit_code = 1, stages = tr @ [GenerateBundle], versionFile = None\<rparr>
      | Some finalZipPath \<Rightarrow>
          if writeVersionOk env
          then \<lparr>exit_code = 0, stages = tr @ [GenerateBundle, WriteVersion],
                versionFile = Some versionInfo\<rparr>
          else \<lparr>exit_code = 1, stages = tr @ [GenerateBundle, WriteVersion],
                versionFile = None\<rparr>)"

definition buildPipeline :: "pipeline_env \<Rightarrow> pipeline_run" where
  "buildPipeline env =
     (let tr0 = (if publicDirExists env then [] else [MkdirPublic])
      in if \<not> publicDirExists env \<and> \<not> mkdirPublicOk env
         then \<lparr>exit_code = 1, stages = tr0, versionFile = None\<rparr>
         else
           (case sync_git env tr0 of
              Inl r \<Rightarrow> r
            | Inr tr1 \<Rightarrow>
                (case commit_info env tr1 of
                   ((commitHash, commitDateRaw), tr2) \<Rightarrow>
                     (let versionInfo = \<lparr>commit = commitHash, date = commitDateRaw,
                                          updated_at = now_version env\<rparr>
                      in case run_commands
                                [(MasterFetch, masterFetch env),
                                 (CleanupBilara, cleanupBilara env),
                                 (BuildIndex, buildIndexCmd env),
                                 (FetchLegacy, fetchLegacy env)] tr2 of
                           Inl tr3 \<Rightarrow> \<lparr>exit_code = 1, stages = tr3, versionFile = None\<rparr>
                         | Inr tr3 \<Rightarrow> bundle_and_stamp env versionInfo tr3))))"

text \<open>The sync step reports no new changes: it was reached, it pulled, and the output of
  the pull says so.\<close>

definition sync_reports_up_to_date :: "pipeline_env \<Rightarrow> bool" where
  "sync_reports_up_to_date env =
     ((publicDirExists env \<or> mkdirPublicOk env) \<and> gitDirExists env \<and>
      (case gitPull env of
         Throws \<Rightarrow> False
       | Returns pullOutput \<Rightarrow> str_includes pullOutput ''Already up to date.''))"

definition later_stages :: "stage list" where
  "later_stages =
     [RevParse, GitShow, MasterFetch, CleanupBilara, BuildIndex, FetchLegacy,
      GenerateBundle, WriteVersion]"

section \<open>JavaScript objects\<close>

text \<open>
  A plain object (an object literal, or what \<^verbatim>\<open>JSON.parse\<close> returns) is the list of its own
  properties in the order of their creation, with distinct keys. Reading \<^verbatim>\<open>obj[k]\<close> follows
  the prototype chain: when \<^verbatim>\<open>k\<close> is not an own property, the members of
  \<^verbatim>\<open>Object.prototype\<close> answer. Each of them is a function or, for \<^verbatim>\<open>__proto__\<close>, the
  prototype object itself: a truthy value that is no string and has none of the properties
  the sources read from an entry.
\<close>

type_synonym 'v jsobj = "(string \<times> 'v) list"

definition object_prototype_names :: "string list" where
  "object_prototype_names =
     [''constructor'', ''__defineGetter__'', ''__defineSetter__'', ''hasOwnProperty'',
      ''__lookupGetter__'', ''__lookupSetter__'', ''isPrototypeOf'', ''propertyIsEnumerable'',
      ''toString'', ''valueOf'', ''__proto__'', ''toLocaleString'']"

datatype 'v js_read = Undefined | Own 'v | Inherited

definition obj_get :: "'v jsobj \<Rightarrow> string \<Rightarrow> 'v js_read" where
  "obj_get obj k =
     (case map_of obj k of
        Some v \<Rightarrow> Own v
      | None \<Rightarrow> if k \<in> set object_prototype_names then Inherited else Undefined)"

text \<open>\<^verbatim>\<open>!obj[k]\<close> where the own values are objects: only \<^verbatim>\<open>undefined\<close> is falsy.\<close>

definition is_undefined :: "'v js_read \<Rightarrow> bool" where
  "is_undefined p = (case p of Undefined \<Rightarrow> True | _ \<Rightarrow> False)"

text \<open>Truthiness where the own values are strings: the empty string is falsy.\<close>

definition truthy_str :: "string js_read \<Rightarrow> bool" where
  "truthy_str p = (case p of Undefined \<Rightarrow> False | Own s \<Rightarrow> s \<noteq> [] | Inherited \<Rightarrow> True)"

text \<open>Writing an own property: an existing key keeps its place, a new key goes last.\<close>

fun own_assign :: "string \<Rightarrow> 'v \<Rightarrow> 'v jsobj \<Rightarrow> 'v jsobj" where
  "own_assign k v [] = [(k, v)]"
| "own_assign k v ((k', v') # ps) =
     (if k' = k then (k, v) # ps else (k', v') # own_assign k v ps)"

text \<open>\<^verbatim>\<open>obj[k] = v\<close> for a primitive \<^verbatim>\<open>v\<close>: the key \<^verbatim>\<open>__proto__\<close>, unless it is an own
  property already, reaches the setter of \<^verbatim>\<open>Object.prototype\<close>, which ignores a primitive
  and creates nothing.\<close>

definition obj_set :: "'v jsobj \<Rightarrow> string \<Rightarrow> 'v \<Rightarrow> 'v jsobj" where
  "obj_set obj k v =
     (if k = ''__proto__'' \<and> map_of obj k = None then obj else own_assign k v obj)"

text \<open>\<^verbatim>\<open>Object.keys\<close>: the keys that are array indices first, in ascending numeric order,
  then the other keys in the order of their creation.\<close>

definition is_digit :: "char \<Rightarrow> bool" where
  "is_digit c = (c \<in> set ''0123456789'')"

definition decimal_value :: "string \<Rightarrow> nat" where
  "decimal_value s = foldl (\<lambda>n c. 10 * n + (of_char c - 48)) 0 s"

definition is_array_index :: "string \<Rightarrow> bool" where
  "is_array_index k =
     (k \<noteq> [] \<and> list_all is_digit k \<and> (k = ''0'' \<or> hd k \<noteq> CHR ''0'')
      \<and> decimal_value k < 4294967295)"

definition Object_keys :: "'v jsobj \<Rightarrow> string list" where
  "Object_keys obj =
     (let ks = map fst obj
      in sort_key decimal_value (filter is_array_index ks)
         @ filter (\<lambda>k. \<not> is_array_index k) ks)"

section \<open>Paths and directory trees\<close>

text \<open>
  An absolute, normalized path is the list of its segments. A directory is the list of
  its entries as \<^verbatim>\<open>readdirSync\<close> returns them; an entry name is one segment, so joining a
  directory and an entry name appends the name.
\<close>

type_synonym path = "string list"

datatype node = File string | Dir string "node list"

datatype dir_state = Absent | NotDirectory | Listing "node list"

text \<open>The path as the string the source holds.\<close>

definition path_string :: "path \<Rightarrow> string" where
  "path_string p = concat (map (\<lambda>seg. CHR ''/'' # seg) p)"

fun joinSlash :: "string list \<Rightarrow> string" where
  "joinSlash [] = []"
| "joinSlash [seg] = seg"
| "joinSlash (seg # segs) = seg @ CHR ''/'' # joinSlash segs"

definition basename :: "path \<Rightarrow> string" where
  "basename p = (if p = [] then [] else last p)"

text \<open>\<^verbatim>\<open>path.relative(from, to)\<close> on absolute normalized paths: one \<^verbatim>\<open>..\<close> for each segment
  of \<^verbatim>\<open>from\<close> below the common prefix, then the rest of \<^verbatim>\<open>to\<close>.\<close>

fun strip_common :: "path \<Rightarrow> path \<Rightarrow> path \<times> path" where
  "strip_common (a # as) (b # bs) = (if a = b then strip_common as bs else (a # as, b # bs))"
| "strip_common as bs = (as, bs)"

definition path_relative :: "path \<Rightarrow> path \<Rightarrow> string" where
  "path_relative from to =
     (case strip_common from to of
        (f, t) \<Rightarrow> joinSlash (replicate (length f) ''..'' @ t))"

text \<open>\<^verbatim>\<open>walkSync\<close>: the files below a directory, depth first in listing order.\<close>

fun walk_node :: "path \<Rightarrow> node \<Rightarrow> path list" where
  "walk_node dir (File name) = [dir @ [name]]"
| "walk_node dir (Dir name children) = concat (map (walk_node (dir @ [name])) children)"

definition walkSync :: "path \<Rightarrow> node list \<Rightarrow> path list" where
  "walkSync dir files = concat (map (walk_node dir) files)"

section \<open>The Index Builder (scripts/build\_index.js)\<close>

text \<open>An entry of the index: \<^verbatim>\<open>root\<close> (\<^verbatim>\<open>null\<close> or a relative path) and the object
  \<^verbatim>\<open>translations\<close> from author to relative path.\<close>

record entry =
  root :: "string option"
  translationsOf :: "string jsobj"

type_synonym index = "entry jsobj"

datatype error = NotFound | TypeError | ENOTDIR | ENOENT

fun fold_err :: "('a \<Rightarrow> 's \<Rightarrow> error + 's) \<Rightarrow> 'a list \<Rightarrow> 's \<Rightarrow> error + 's" where
  "fold_err f [] s = Inr s"
| "fold_err f (x # xs) s = (case f x s of Inl e \<Rightarrow> Inl e | Inr s' \<Rightarrow> fold_err f xs s')"

text \<open>Which files the two loops take, and the identifier each gives: a root file is a
  full path that ends with \<^verbatim>\<open>_root-pli-ms.json\<close>, its identifier the file name with the
  first occurrence of that text removed; a translation file has a name that contains
  \<^verbatim>\<open>_translation-en-\<close>, its identifier the text before the first occurrence.\<close>

definition is_root_file :: "path \<Rightarrow> bool" where
  "is_root_file fullPath = endsWith (path_string fullPath) ''_root-pli-ms.json''"

definition root_uid :: "path \<Rightarrow> string" where
  "root_uid fullPath = str_replace ''_root-pli-ms.json'' [] (basename fullPath)"

definition is_translation_file :: "path \<Rightarrow> bool" where
  "is_translation_file fullPath = str_includes (basename fullPath) ''_translation-en-''"

definition translation_uid :: "path \<Rightarrow> string" where
  "translation_uid fullPath = split_first ''_translation-en-'' (basename fullPath)"

text \<open>The body of the loop over the root files. The assignment \<^verbatim>\<open>index[uid] = {...}\<close> is
  behind the guard \<^verbatim>\<open>!index[uid]\<close>, so it creates a new own property, which goes last.\<close>

definition add_root :: "path \<Rightarrow> path \<Rightarrow> index \<Rightarrow> index" where
  "add_root ROOT_DIR fullPath index =
     (if is_root_file fullPath then
        (let uid = root_uid fullPath;
             relativePath = path_relative ROOT_DIR fullPath
         in if is_undefined (obj_get index uid)
            then index @ [(uid, \<lparr>root = Some relativePath, translationsOf = []\<rparr>)]
            else index)
      else index)"

text \<open>The body of the loop over the files of one author. \<^verbatim>\<open>index[uid].translations[author]\<close>
  is assigned on the entry that \<^verbatim>\<open>index[uid]\<close> reads: an own entry is updated in place; an
  inherited member has no \<^verbatim>\<open>translations\<close>, and the assignment throws a TypeError.\<close>

definition add_translation :: "string \<Rightarrow> path \<Rightarrow> path \<Rightarrow> index \<Rightarrow> error + index" where
  "add_translation author authorDir fullPath index =
     (if is_translation_file fullPath then
        (let uid = translation_uid fullPath;
             index1 = (if is_undefined (obj_get index uid)
                       then index @ [(uid, \<lparr>root = None, translationsOf = []\<rparr>)]
                       else index);
             relativePath = path_relative authorDir fullPath
         in case obj_get index1 uid of
              Own e \<Rightarrow>
                Inr (own_assign uid
                       (e\<lparr>translationsOf := obj_set (translationsOf e) author relativePath\<rparr>)
                       index1)
            | _ \<Rightarrow> Inl TypeError)
      else Inr index)"

text \<open>The body of the loop over the entries of the translation directory: only
  directories are walked.\<close>

definition index_author :: "path \<Rightarrow> node \<Rightarrow> index \<Rightarrow> error + index" where
  "index_author TRANSLATION_DIR n index =
     (case n of
        File name \<Rightarrow> Inr index
      | Dir author children \<Rightarrow>
          (let authorDir = TRANSLATION_DIR @ [author];
               transFiles = walkSync authorDir children
           in fold_err (add_translation author authorDir) transFiles index))"

text \<open>\<^verbatim>\<open>buildIndex\<close>, from the base directory and the states of the two walked directories
  to the index it writes. A missing directory skips its half of the walk; a path that
  exists and is no directory makes \<^verbatim>\<open>readdirSync\<close> throw.\<close>

definition index_roots :: "path \<Rightarrow> dir_state \<Rightarrow> error + index" where
  "index_roots ROOT_DIR rootDir =
     (case rootDir of
        Absent \<Rightarrow> Inr []
      | NotDirectory \<Rightarrow> Inl ENOTDIR
      | Listing files \<Rightarrow> Inr (fold (add_root ROOT_DIR) (walkSync ROOT_DIR files) []))"

definition index_translations :: "path \<Rightarrow> dir_state \<Rightarrow> index \<Rightarrow> error + index" where
  "index_translations TRANSLATION_DIR translationDir index =
     (case translationDir of
        Absent \<Rightarrow> Inr index
      | NotDirectory \<Rightarrow> Inl ENOTDIR
      | Listing authors \<Rightarrow> fold_err (index_author TRANSLATION_DIR) authors index)"

definition buildIndex :: "path \<Rightarrow> dir_state \<Rightarrow> dir_state \<Rightarrow> error + index" where
  "buildIndex BASE_DIR rootDir translationDir =
     (case index_roots (BASE_DIR @ [''root'', ''pli'', ''ms'']) rootDir of
        Inl e \<Rightarrow> Inl e
      | Inr index \<Rightarrow>
          index_translations (BASE_DIR @ [''translation'', ''en'']) translationDir index)"

text \<open>The translation files the second walk meets, in the order it meets them, each with
  its author and the author's directory.\<close>

definition author_files :: "path \<Rightarrow> node list \<Rightarrow> (string \<times> path \<times> path) list" where
  "author_files TRANSLATION_DIR authors =
     concat (map (\<lambda>n. case n of
                          File name \<Rightarrow> []
                        | Dir author children \<Rightarrow>
                            map (\<lambda>p. (author, TRANSLATION_DIR @ [author], p))
                              (walkSync (TRANSLATION_DIR @ [author]) children))
                 authors)"

text \<open>The files the two walks of a build meet.\<close>

definition root_files :: "path \<Rightarrow> dir_state \<Rightarrow> path list" where
  "root_files BASE_DIR rootDir =
     (case rootDir of
        Listing files \<Rightarrow> walkSync (BASE_DIR @ [''root'', ''pli'', ''ms'']) files
      | _ \<Rightarrow> [])"

definition translation_files :: "path \<Rightarrow> dir_state \<Rightarrow> (string \<times> path \<times> path) list" where
  "translation_files BASE_DIR translationDir =
     (case translationDir of
        Listing authors \<Rightarrow> author_files (BASE_DIR @ [''translation'', ''en'']) authors
      | _ \<Rightarrow> [])"

section \<open>The Facet Resolver (GET /api/suttas/:uid in app.js)\<close>

text \<open>The content of a parsed JSON file, with the truthiness JavaScript gives it. A number
  matters here only through being zero or not.\<close>

datatype json =
    JNull | JBool bool | JNum int | JStr string | JArr "json list" | JObj "(string \<times> json) list"

definition json_truthy :: "json \<Rightarrow> bool" where
  "json_truthy j =
     (case j of
        JNull \<Rightarrow> False
      | JBool b \<Rightarrow> b
      | JNum n \<Rightarrow> n \<noteq> 0
      | JStr s \<Rightarrow> s \<noteq> []
      | JArr xs \<Rightarrow> True
      | JObj ps \<Rightarrow> True)"

text \<open>What is stored at a path: nothing, something that cannot be read or parsed, or a
  JSON document.\<close>

datatype file_state = Missing | Unparsable | Parsed json

type_synonym files = "path \<Rightarrow> file_state"

text \<open>\<^verbatim>\<open>readJson\<close>: \<^verbatim>\<open>null\<close> when the file is missing or when reading or parsing throws (the
  exception is caught and logged).\<close>

definition readJson :: "files \<Rightarrow> path \<Rightarrow> json" where
  "readJson fs filePath =
     (case fs filePath of
        Parsed content \<Rightarrow> content
      | _ \<Rightarrow> JNull)"

text \<open>\<^verbatim>\<open>readJson(p) || {}\<close>\<close>

definition load :: "files \<Rightarrow> path \<Rightarrow> json" where
  "load fs filePath =
     (let content = readJson fs filePath in if json_truthy content then content else JObj [])"

text \<open>The path functions of Node on the strings the index holds. \<^verbatim>\<open>path.join\<close> with an
  absolute normalized first argument: the other arguments are cut at the separators, empty
  segments and \<^verbatim>\<open>.\<close> are dropped, \<^verbatim>\<open>..\<close> leaves the directory reached so far (the root
  stays the root).\<close>

fun splitSlash :: "string \<Rightarrow> string list" where
  "splitSlash [] = [[]]"
| "splitSlash (c # cs) =
     (if c = CHR ''/'' then [] # splitSlash cs
      else (case splitSlash cs of
              [] \<Rightarrow> [[c]]
            | seg # segs \<Rightarrow> (c # seg) # segs))"

definition normalize_step :: "string \<Rightarrow> path \<Rightarrow> path" where
  "normalize_step seg reached =
     (if seg = [] \<or> seg = ''.'' then reached
      else if seg = ''..'' then butlast reached
      else reached @ [seg])"

definition path_join :: "path \<Rightarrow> string list \<Rightarrow> path" where
  "path_join base parts = fold normalize_step (concat (map splitSlash parts)) base"

text \<open>\<^verbatim>\<open>path.basename\<close>: the text after the last separator, trailing separators left out.\<close>

definition str_basename :: "string \<Rightarrow> string" where
  "str_basename p =
     rev (takeWhile (\<lambda>c. c \<noteq> CHR ''/'') (dropWhile (\<lambda>c. c = CHR ''/'') (rev p)))"

text \<open>\<^verbatim>\<open>path.dirname\<close>, as Node scans for it from the end down to the second character:
  trailing separators are skipped, then the name, and the path is cut at the separator
  found.\<close>

definition str_dirname :: "string \<Rightarrow> string" where
  "str_dirname p =
     (if p = [] then ''.''
      else
        let hasRoot = (hd p = CHR ''/'');
            scanned = dropWhile (\<lambda>c. c \<noteq> CHR ''/'')
                        (dropWhile (\<lambda>c. c = CHR ''/'') (rev (tl p)));
            cut = length scanned
        in if scanned = [] then (if hasRoot then ''/'' else ''.'')
           else if hasRoot \<and> cut = 1 then ''//''
           else take cut p)"

text \<open>The candidate file of each facet.\<close>

definition rootPath :: "path \<Rightarrow> string \<Rightarrow> path" where
  "rootPath BILARA_BASE rootRelativePath =
     path_join BILARA_BASE [''root/pli/ms'', rootRelativePath]"

definition translationPath :: "path \<Rightarrow> string \<Rightarrow> string \<Rightarrow> path" where
  "translationPath BILARA_BASE selectedAuthor translationRelativePath =
     path_join BILARA_BASE [''translation/en'', selectedAuthor, translationRelativePath]"

definition htmlPath :: "path \<Rightarrow> string \<Rightarrow> path" where
  "htmlPath BILARA_BASE rootRelativePath =
     path_join BILARA_BASE
       [''html/pli/ms'', str_dirname rootRelativePath,
        str_replace ''_root-pli-ms.json'' ''_html.json'' (str_basename rootRelativePath)]"

definition commentPath :: "path \<Rightarrow> string \<Rightarrow> string \<Rightarrow> path" where
  "commentPath BILARA_BASE selectedAuthor translationRelativePath =
     path_join BILARA_BASE
       [''comment/en'', selectedAuthor, str_dirname translationRelativePath,
        str_replace ''translation-'' ''comment-'' (str_basename translationRelativePath)]"

definition variantPath :: "path \<Rightarrow> string \<Rightarrow> path" where
  "variantPath BILARA_BASE rootRelativePath =
     path_join BILARA_BASE
       [''variant/pli/ms'', str_dirname rootRelativePath,
        str_replace ''root-'' ''variant-'' (str_basename rootRelativePath)]"

definition referencePath :: "path \<Rightarrow> string \<Rightarrow> path" where
  "referencePath BILARA_BASE rootRelativePath =
     path_join BILARA_BASE
       [''reference/pli/ms'', str_dirname rootRelativePath,
        str_replace ''_root-pli-ms.json'' ''_reference.json'' (str_basename rootRelativePath)]"

text \<open>Step 2 of the handler, the selection of the translation: the selected author
  (\<^verbatim>\<open>null\<close> at the start) and what \<^verbatim>\<open>translations[selectedAuthor]\<close> read (\<^verbatim>\<open>null\<close> at the
  start, which is falsy as \<^verbatim>\<open>undefined\<close> is). A requested author is taken when it is a
  non-empty string and \<^verbatim>\<open>translations[requestedAuthor]\<close> is truthy.\<close>

definition fallback_author :: "string jsobj \<Rightarrow> string list \<Rightarrow> string" where
  "fallback_author translations availableAuthors =
     (if truthy_str (obj_get translations ''sujato'') then ''sujato''
      else if truthy_str (obj_get translations ''brahmali'') then ''brahmali''
      else hd availableAuthors)"

definition select_author :: "string jsobj \<Rightarrow> string option \<Rightarrow> string option \<times> string js_read" where
  "select_author translations requestedAuthor =
     (let availableAuthors = Object_keys translations
      in if length availableAuthors > 0 then
           (let requested = (case requestedAuthor of
                               None \<Rightarrow> None
                             | Some r \<Rightarrow>
                                 if r \<noteq> [] \<and> truthy_str (obj_get translations r)
                                 then Some r else None)
            in case requested of
                 Some r \<Rightarrow> (Some r, obj_get translations r)
               | None \<Rightarrow>
                   (let selectedAuthor = fallback_author translations availableAuthors
                    in (Some selectedAuthor, obj_get translations selectedAuthor)))
         else (None, Undefined))"

text \<open>The bundle the handler sends: the selected author, the available authors and the
  six facets. (The display name of the author and the publication data, which the handler
  looks up in two metadata tables after the facets are loaded, are left out.)\<close>

record facet_bundle =
  bundle_uid :: string
  author_uid :: "string option"
  available_authors :: "string list"
  root_text :: json
  translation_text :: json
  html_text :: json
  comment_text :: json
  variant_text :: json
  reference_text :: json

text \<open>The handler. An identifier that \<^verbatim>\<open>suttaIndex[uid]\<close> reads as \<^verbatim>\<open>undefined\<close> is
  answered 404. An inherited member passes the guard; it has no \<^verbatim>\<open>root\<close> and no
  \<^verbatim>\<open>translations\<close>, so \<^verbatim>\<open>suttaEntry.translations || {}\<close> is the empty object. When the
  selected author and the value read for it are truthy, that value goes to \<^verbatim>\<open>path.join\<close>,
  which throws a TypeError on anything but a string.\<close>

definition resolve ::
  "path \<Rightarrow> files \<Rightarrow> index \<Rightarrow> string \<Rightarrow> string option \<Rightarrow> error + facet_bundle" where
  "resolve BILARA_BASE fs suttaIndex uid requestedAuthor =
     (case obj_get suttaIndex uid of
        Undefined \<Rightarrow> Inl NotFound
      | suttaEntry \<Rightarrow>
          (let entryRoot = (case suttaEntry of Own e \<Rightarrow> root e | _ \<Rightarrow> None);
               entryTranslations = (case suttaEntry of Own e \<Rightarrow> translationsOf e | _ \<Rightarrow> []);
               rootRelativePath = (case entryRoot of Some r \<Rightarrow> r | None \<Rightarrow> []);
               rootData = (if rootRelativePath \<noteq> []
                           then load fs (rootPath BILARA_BASE rootRelativePath) else JObj []);
               availableAuthors = Object_keys entryTranslations;
               selection = select_author entryTranslations requestedAuthor;
               selectedAuthor = fst selection;
               translationRelativePath = snd selection;
               htmlData = (if rootRelativePath \<noteq> []
                           then load fs (htmlPath BILARA_BASE rootRelativePath) else JObj []);
               variantData = (if rootRelativePath \<noteq> []
                              then load fs (variantPath BILARA_BASE rootRelativePath) else JObj []);
               referenceData = (if rootRelativePath \<noteq> []
                                then load fs (referencePath BILARA_BASE rootRelativePath)
                                else JObj [])
           in case selectedAuthor of
                None \<Rightarrow>
                  Inr \<lparr>bundle_uid = uid, author_uid = None, available_authors = availableAuthors,
                       root_text = rootData, translation_text = JObj [], html_text = htmlData,
                       comment_text = JObj [], variant_text = variantData,
                       reference_text = referenceData\<rparr>
              | Some author \<Rightarrow>
                  if author \<noteq> [] \<and> truthy_str translationRelativePath then
                    (case translationRelativePath of
                       Own rel \<Rightarrow>
                         Inr \<lparr>bundle_uid = uid, author_uid = Some author,
                              available_authors = availableAuthors, root_text = rootData,
                              translation_text = load fs (translationPath BILARA_BASE author rel),
                              html_text = htmlData,
                              comment_text = load fs (commentPath BILARA_BASE author rel),
                              variant_text = variantData, reference_text = referenceData\<rparr>
                     | _ \<Rightarrow> Inl TypeError)
                  else
                    Inr \<lparr>bundle_uid = uid, author_uid = Some author,
                         available_authors = availableAuthors, root_text = rootData,
                         translation_text = JObj [], html_text = htmlData,
                         comment_text = JObj [], variant_text = variantData,
                         reference_text = referenceData\<rparr>))"

section \<open>The Legacy Backfill (scripts/fetch\_legacy.js)\<close>

record legacy_entry =
  legacy_author_uid :: string
  legacy_path :: string

type_synonym legacy_map = "legacy_entry jsobj"

text \<open>A menu document: a node with its \<^verbatim>\<open>node_type\<close>, its \<^verbatim>\<open>uid\<close> and its children (none
  when \<^verbatim>\<open>children\<close> is absent). A menu file holds one node or an array of nodes, or does
  not parse, in which case the \<^verbatim>\<open>catch\<close> skips it.\<close>

datatype menu_node = MenuNode string string "menu_node list"

datatype menu_file = BadMenu | MenuDoc "menu_node list"

text \<open>\<^verbatim>\<open>leafNodes\<close> is a \<^verbatim>\<open>Set\<close>: the list of its elements in the order of insertion.\<close>

definition set_add :: "string \<Rightarrow> string list \<Rightarrow> string list" where
  "set_add x xs = (if x \<in> set xs then xs else xs @ [x])"

fun extractLeaves :: "menu_node \<Rightarrow> string list \<Rightarrow> string list" where
  "extractLeaves (MenuNode node_type uid children) leafNodes =
     fold extractLeaves children
       (if node_type = ''leaf'' then set_add uid leafNodes else leafNodes)"

definition gather_leaves :: "menu_file list \<Rightarrow> string list" where
  "gather_leaves menuFiles =
     fold (\<lambda>file leafNodes.
             case file of
               BadMenu \<Rightarrow> leafNodes
             | MenuDoc nodesToProcess \<Rightarrow> fold extractLeaves nodesToProcess leafNodes)
       menuFiles []"

text \<open>The remote service. \<^verbatim>\<open>fetchJson\<close> returns \<^verbatim>\<open>null\<close> on any failure. The suttaplex
  answer is an object or an array of objects, with a list of translations (empty when
  absent); the sutta answer may have a \<^verbatim>\<open>translation\<close>, which may have a \<^verbatim>\<open>text\<close>.\<close>

record translation_info =
  lang :: string
  info_author_uid :: string

record suttaplex =
  plex_translations :: "translation_info list"

datatype 'a fetched = FetchFailed | JsonObject 'a | JsonArray "'a list"

record sutta_translation =
  api_text :: "string option"

record sutta_api_data =
  api_translation :: "sutta_translation option"

record remote =
  fetch_suttaplex :: "string \<Rightarrow> suttaplex fetched"
  fetch_sutta :: "string \<Rightarrow> string \<Rightarrow> sutta_api_data option"

text \<open>\<^verbatim>\<open>Array.isArray(d) ? d[0] : d\<close>, then \<^verbatim>\<open>if (!plex) continue\<close>.\<close>

definition first_plex :: "suttaplex fetched \<Rightarrow> suttaplex option" where
  "first_plex suttaplexData =
     (case suttaplexData of
        FetchFailed \<Rightarrow> None
      | JsonObject plex \<Rightarrow> Some plex
      | JsonArray plexes \<Rightarrow> (case plexes of [] \<Rightarrow> None | plex # rest \<Rightarrow> Some plex))"

text \<open>\<^verbatim>\<open>suttaApiData && suttaApiData.translation && suttaApiData.translation.text\<close>: the
  text when all three are truthy.\<close>

definition legacy_text :: "sutta_api_data option \<Rightarrow> string option" where
  "legacy_text suttaApiData =
     (case suttaApiData of
        None \<Rightarrow> None
      | Some d \<Rightarrow>
          (case api_translation d of
             None \<Rightarrow> None
           | Some t \<Rightarrow>
               (case api_text t of
                  None \<Rightarrow> None
                | Some htmlContent \<Rightarrow> if htmlContent = [] then None else Some htmlContent)))"

text \<open>The state of a run: the map in memory, the counter, the map file on disk, the
  legacy documents written and the requests sent so far.\<close>

datatype fetch = FetchSuttaplex string | FetchSutta string string

fun fetch_uid :: "fetch \<Rightarrow> string" where
  "fetch_uid (FetchSuttaplex uid) = uid"
| "fetch_uid (FetchSutta uid authorUid) = uid"

record backfill_state =
  legacyMap :: legacy_map
  count :: nat
  mapFile :: "legacy_map option"
  htmlFiles :: "(path \<times> string) list"
  fetches :: "fetch list"

text \<open>The body of the loop over the missing leaves. The writes to the file system are
  taken to succeed. The assignment \<^verbatim>\<open>legacyMap[uid] = {...}\<close> is behind the guard
  \<^verbatim>\<open>if (legacyMap[uid]) continue\<close>.\<close>

definition backslashes_to_slashes :: "string \<Rightarrow> string" where
  "backslashes_to_slashes s = map (\<lambda>c. if c = CHR 0x5C then CHR ''/'' else c) s"

definition process_leaf :: "remote \<Rightarrow> path \<Rightarrow> string \<Rightarrow> backfill_state \<Rightarrow> backfill_state" where
  "process_leaf api DATA_DIR uid s =
     (if \<not> is_undefined (obj_get (legacyMap s) uid) then s
      else
        let s1 = s\<lparr>fetches := fetches s @ [FetchSuttaplex uid]\<rparr>
        in case first_plex (fetch_suttaplex api uid) of
             None \<Rightarrow> s1
           | Some plex \<Rightarrow>
               (case filter (\<lambda>t. lang t = ''en'') (plex_translations plex) of
                  [] \<Rightarrow> s1
                | targetTrans # others \<Rightarrow>
                    (let authorUid = info_author_uid targetTrans;
                         s2 = s1\<lparr>fetches := fetches s1 @ [FetchSutta uid authorUid]\<rparr>
                     in case legacy_text (fetch_sutta api uid authorUid) of
                          None \<Rightarrow> s2
                        | Some htmlContent \<Rightarrow>
                            (let BILARA = DATA_DIR @ [''bilara-data-published''];
                                 targetDir = path_join (BILARA @ [''legacy'']) [''en'', authorUid];
                                 targetFile = path_join targetDir [uid @ ''.html''];
                                 relativePath = backslashes_to_slashes
                                                  (path_relative BILARA targetFile);
                                 s3 = s2\<lparr>htmlFiles := htmlFiles s2 @ [(targetFile, htmlContent)],
                                         legacyMap := own_assign uid
                                            \<lparr>legacy_author_uid = authorUid,
                                             legacy_path = relativePath\<rparr> (legacyMap s2),
                                         count := count s2 + 1\<rparr>
                             in if count s3 mod 10 = 0
                                then s3\<lparr>mapFile := Some (legacyMap s3)\<rparr>
                                else s3))))"

text \<open>What a run finds: the index file, the map file, the menu directory with its
  \<^verbatim>\<open>.json\<close> files in listing order (\<^verbatim>\<open>None\<close> when the directory is missing and
  \<^verbatim>\<open>readdirSync\<close> throws), and the remote service.\<close>

record backfill_env =
  indexFile :: "index option"
  legacyMapFile :: "legacy_map option"
  menuFiles :: "menu_file list option"
  api :: remote

definition initial_state :: "backfill_env \<Rightarrow> backfill_state" where
  "initial_state env =
     \<lparr>legacyMap = (case legacyMapFile env of None \<Rightarrow> [] | Some m \<Rightarrow> m),
      count = 0, mapFile = legacyMapFile env, htmlFiles = [], fetches = []\<rparr>"

definition missingLeaves :: "index \<Rightarrow> menu_file list \<Rightarrow> string list" where
  "missingLeaves suttaIndex files =
     filter (\<lambda>uid. is_undefined (obj_get suttaIndex uid)) (gather_leaves files)"

text \<open>The loop, and the run around it: without an index file the run returns at once;
  after the loop the map is written once more.\<close>

definition backfill_loop :: "remote \<Rightarrow> path \<Rightarrow> string list \<Rightarrow> backfill_state \<Rightarrow> backfill_state" where
  "backfill_loop r DATA_DIR uids s = fold (process_leaf r DATA_DIR) uids s"

definition run :: "path \<Rightarrow> backfill_env \<Rightarrow> error + backfill_state" where
  "run DATA_DIR env =
     (case indexFile env of
        None \<Rightarrow> Inr (initial_state env)
      | Some suttaIndex \<Rightarrow>
          (case menuFiles env of
             None \<Rightarrow> Inl ENOENT
           | Some files \<Rightarrow>
               (let s = backfill_loop (api env) DATA_DIR (missingLeaves suttaIndex files)
                          (initial_state env)
                in Inr (s\<lparr>mapFile := Some (legacyMap s)\<rparr>))))"

text \<open>Runs one after the other: each finds the map file the one before left.\<close>

fun run_sequence :: "path \<Rightarrow> legacy_map option \<Rightarrow> backfill_env list \<Rightarrow> (error + backfill_state) list" where
  "run_sequence DATA_DIR disk [] = []"
| "run_sequence DATA_DIR disk (env # envs) =
     (let r = run DATA_DIR (env\<lparr>legacyMapFile := disk\<rparr>);
          disk' = (case r of Inl e \<Rightarrow> disk | Inr s \<Rightarrow> mapFile s)
      in r # run_sequence DATA_DIR disk' envs)"

definition fetched_uids :: "(error + backfill_state) \<Rightarrow> string list" where
  "fetched_uids r = (case r of Inl e \<Rightarrow> [] | Inr s \<Rightarrow> map fetch_uid (fetches s))"

section \<open>Well-formed directory trees\<close>

text \<open>What a file system gives as the name of a directory entry: a non-empty string
  without a separator that is neither \<^verbatim>\<open>.\<close> nor \<^verbatim>\<open>..\<close>.\<close>

definition plain_name :: "string \<Rightarrow> bool" where
  "plain_name name =
     (name \<noteq> [] \<and> CHR ''/'' \<notin> set name \<and> name \<noteq> ''.'' \<and> name \<noteq> ''..'')"

fun plain_node :: "node \<Rightarrow> bool" where
  "plain_node (File name) = plain_name name"
| "plain_node (Dir name children) = (plain_name name \<and> list_all plain_node children)"

definition plain_dir :: "dir_state \<Rightarrow> bool" where
  "plain_dir d = (case d of Listing files \<Rightarrow> list_all plain_node files | _ \<Rightarrow> True)"

section \<open>Concrete inputs\<close>

text \<open>Two environments to run the pipeline on: nothing new to pull with an index in place,
  and a pull that brought changes followed by a bundler that fails.\<close>

definition env_up_to_date :: pipeline_env where
  "env_up_to_date =
     \<lparr>publicDirExists = True, mkdirPublicOk = True, gitDirExists = True,
      parentDirExists = True, mkdirParentOk = True, gitClone = Throws,
      gitPull = Returns ''Already up to date.'', indexExists = True,
      now_step2 = ''2026-01-01T00:00:00.000Z'', revParse = Returns ''abc123'',
      gitShow = Returns ''2025-12-31T10:00:00+00:00'',
      now_version = ''2026-01-01T00:00:01.000Z'',
      masterFetch = Returns [], cleanupBilara = Returns [], buildIndexCmd = Returns [],
      fetchLegacy = Returns [], generateBundle = Some ''pwa/public/data.zip'',
      writeVersionOk = True\<rparr>"

definition env_bundle_fails :: pipeline_env where
  "env_bundle_fails = env_up_to_date\<lparr>gitPull := Returns ''Updating 1a2b..3c4d'', generateBundle := None\<rparr>"

text \<open>A server that has accepted one trigger and received one line of output since.\<close>

definition state_idle :: server_state where
  "state_idle = \<lparr>buildLogs = [], buildProcess = HNull\<rparr>"

definition state_running :: server_state where
  "state_running =
     fold on_child_event [Stdout ''t1'' [''Starting Offline Data Build Pipeline...'']]
       (snd (post_build_offline True ''t0'' state_idle))"

text \<open>A backfill: a data directory, twelve leaves, a remote service that answers every
  request with an English translation by one author, an environment with two leaves in
  its menu and an empty index, and a legacy map that holds one of the two.\<close>

definition data_dir :: path where
  "data_dir = [''srv'', ''data'']"


definition remote_ok :: remote where
  "remote_ok =
     \<lparr>fetch_suttaplex =
        (\<lambda>uid. JsonArray [\<lparr>plex_translations =
                            [\<lparr>lang = ''de'', info_author_uid = ''sabbamitta''\<rparr>,
                             \<lparr>lang = ''en'', info_author_uid = ''bodhi''\<rparr>]\<rparr>]),
      fetch_sutta =
        (\<lambda>uid authorUid. Some \<lparr>api_translation = Some \<lparr>api_text = Some ''<p>text</p>''\<rparr>\<rparr>)\<rparr>"

definition env_backfill :: backfill_env where
  "env_backfill =
     \<lparr>indexFile = Some [], legacyMapFile = None,
      menuFiles = Some [MenuDoc [MenuNode ''branch'' ''an''
                                  [MenuNode ''leaf'' ''an1.1'' [], MenuNode ''leaf'' ''an1.2'' []]]],
      api = remote_ok\<rparr>"

definition legacy_an11 :: legacy_map where
  "legacy_an11 =
     [(''an1.1'', \<lparr>legacy_author_uid = ''bodhi'', legacy_path = ''legacy/en/bodhi/an1.1.html''\<rparr>)]"

text \<open>Trees for the Index Builder: the same root file name in two directories, and a root
  file whose identifier is the name of a member of \<^verbatim>\<open>Object.prototype\<close>.\<close>

definition base_dir :: path where
  "base_dir = [''srv'', ''data'', ''bilara-data-published'']"

definition two_roots :: dir_state where
  "two_roots =
     Listing [Dir ''sutta'' [Dir ''dn'' [File ''dn1_root-pli-ms.json'']],
              Dir ''xplayground'' [File ''dn1_root-pli-ms.json'']]"

definition constructor_root :: dir_state where
  "constructor_root = Listing [File ''constructor_root-pli-ms.json'']"

section \<open>Properties of the build trigger\<close>

lemma run_active_trigger:
  "run_active (fst (triggerOfflineBuild True t s))"
  by (simp add: triggerOfflineBuild_def run_active_def Let_def)

lemma run_active_on_child_event:
  "run_active s \<Longrightarrow> \<not> is_exit e \<Longrightarrow> run_active (on_child_event e s)"
  by (cases e) (simp_all add: run_active_def is_exit_def)

lemma run_active_fold_events:
  "run_active s \<Longrightarrow> list_all (\<lambda>e. \<not> is_exit e) es \<Longrightarrow> run_active (fold on_child_event es s)"
  by (induction es arbitrary: s) (simp_all add: run_active_on_child_event)

text \<open>
  Claim C8. A trigger that arrives while a run is active (the handle is a child process
  that is neither killed nor exited) is answered 409, and the state, with the log ring in
  it, is what it was: no reset, no appended line.
\<close>

theorem trigger_while_running_rejected:
  assumes "run_active s"
  shows "post_build_offline scriptExists timestamp s
           = ((409, ''A build process is already running.''), s)
         \<and> buildLogs (snd (post_build_offline scriptExists timestamp s)) = buildLogs s"
  using assms by (simp add: post_build_offline_def)


theorem trigger_while_running_rejected_witness:
  "run_active state_running
   \<and> post_build_offline True ''t2'' state_running
       = ((409, ''A build process is already running.''), state_running)
   \<and> buildLogs (snd (post_build_offline True ''t2'' state_running)) = buildLogs state_running
   \<and> length (buildLogs state_running) = 2"
proof -
  have h: "run_active state_running"
    by (simp add: state_running_def state_idle_def post_build_offline_def run_active_def
          triggerOfflineBuild_def handle_truthy_def Let_def)
  have l: "length (buildLogs state_running) = 2"
    by (simp add: state_running_def state_idle_def post_build_offline_def run_active_def
          triggerOfflineBuild_def handle_truthy_def appendLog_def Let_def)
  show ?thesis
    using trigger_while_running_rejected [OF h, of True "''t2''"] h l by simp
qed

section \<open>Properties of the pipeline\<close>

lemma sync_git_stages:
  "sync_git env tr = Inr tr1 \<Longrightarrow> \<exists>xs. tr1 = tr @ xs \<and> set xs \<subseteq> {MkdirParent, GitClone, GitPull}"
  by (auto simp: sync_git_def Let_def split: if_splits cmd_result.splits)

lemma sync_git_exit:
  "sync_git env tr = Inl r \<Longrightarrow> versionFile r = None \<and> (\<exists>xs. stages r = tr @ xs \<and> set xs \<subseteq> {MkdirParent, GitClone, GitPull})"
  by (auto simp: sync_git_def Let_def split: if_splits cmd_result.splits)

lemma commit_info_stages:
  "commit_info env tr = (ci, tr2) \<Longrightarrow> \<exists>xs. tr2 = tr @ xs \<and> set xs \<subseteq> {RevParse, GitShow}"
  by (auto simp: commit_info_def split: cmd_result.splits)

lemma run_commands_stages:
  "run_commands cs tr = r \<Longrightarrow> \<exists>xs. (r = Inl (tr @ xs) \<or> r = Inr (tr @ xs)) \<and> set xs \<subseteq> fst ` set cs"
proof (induction cs arbitrary: tr r)
  case Nil
  then show ?case by auto
next
  case (Cons c cs)
  obtain st res where c: "c = (st, res)" by (cases c)
  show ?case
  proof (cases res)
    case Throws
    with Cons.prems c show ?thesis by (intro exI[of _ "[st]"]) auto
  next
    case (Returns out)
    with Cons.prems c have "run_commands cs (tr @ [st]) = r" by simp
    from Cons.IH[OF this] obtain xs where
      "(r = Inl ((tr @ [st]) @ xs) \<or> r = Inr ((tr @ [st]) @ xs)) \<and> set xs \<subseteq> fst ` set cs" by blast
    then show ?thesis using c by (intro exI[of _ "st # xs"]) auto
  qed
qed

lemma run_commands_no_bundle:
  assumes "run_commands cs tr = r"
      and "set tr \<inter> {GenerateBundle, WriteVersion} = {}"
      and "fst ` set cs \<inter> {GenerateBundle, WriteVersion} = {}"
  shows "\<exists>tr'. (r = Inl tr' \<or> r = Inr tr') \<and> set tr' \<inter> {GenerateBundle, WriteVersion} = {}"
proof -
  from run_commands_stages [OF assms(1)] obtain xs where
    xs: "r = Inl (tr @ xs) \<or> r = Inr (tr @ xs)" "set xs \<subseteq> fst ` set cs" by blast
  have "set (tr @ xs) \<inter> {GenerateBundle, WriteVersion} = {}"
    using assms(2,3) xs(2) by auto
  with xs(1) show ?thesis by blast
qed

lemma buildPipeline_cases:
  "(versionFile (buildPipeline env) = None
      \<and> set (stages (buildPipeline env)) \<inter> {GenerateBundle, WriteVersion} = {})
   \<or> (\<exists>vi tr. set tr \<inter> {GenerateBundle, WriteVersion} = {}
          \<and> buildPipeline env = bundle_and_stamp env vi tr)"
proof (cases "\<not> publicDirExists env \<and> \<not> mkdirPublicOk env")
  case True
  then show ?thesis by (simp add: buildPipeline_def)
next
  case False
  define tr0 where "tr0 = (if publicDirExists env then [] else [MkdirPublic])"
  have tr0: "set tr0 \<inter> {GenerateBundle, WriteVersion} = {}" by (simp add: tr0_def)
  show ?thesis
  proof (cases "sync_git env tr0")
    case (Inl r)
    from sync_git_exit [OF Inl] tr0 have
      "versionFile r = None \<and> set (stages r) \<inter> {GenerateBundle, WriteVersion} = {}" by auto
    moreover have "buildPipeline env = r"
      using False Inl by (auto simp: buildPipeline_def tr0_def Let_def split: if_splits)
    ultimately show ?thesis by simp
  next
    case (Inr tr1)
    from sync_git_stages [OF Inr] tr0 have tr1: "set tr1 \<inter> {GenerateBundle, WriteVersion} = {}" by auto
    obtain h d tr2 where ci: "commit_info env tr1 = ((h, d), tr2)"
      by (metis prod.exhaust)
    from commit_info_stages [OF ci] tr1 have tr2: "set tr2 \<inter> {GenerateBundle, WriteVersion} = {}" by auto
    define cs where "cs = [(MasterFetch, masterFetch env), (CleanupBilara, cleanupBilara env),
                           (BuildIndex, buildIndexCmd env), (FetchLegacy, fetchLegacy env)]"
    have csf: "fst ` set cs \<inter> {GenerateBundle, WriteVersion} = {}" by (simp add: cs_def)
    from run_commands_no_bundle [OF refl tr2 csf] obtain tr3 where
      tr3: "run_commands cs tr2 = Inl tr3 \<or> run_commands cs tr2 = Inr tr3"
           "set tr3 \<inter> {GenerateBundle, WriteVersion} = {}" by blast
    from tr3(1) show ?thesis
    proof
      assume "run_commands cs tr2 = Inl tr3"
      then have "buildPipeline env = \<lparr>exit_code = 1, stages = tr3, versionFile = None\<rparr>"
        using False Inr ci by (auto simp: buildPipeline_def tr0_def cs_def Let_def split: if_splits)
      with tr3(2) show ?thesis by simp
    next
      assume "run_commands cs tr2 = Inr tr3"
      then have "buildPipeline env
                 = bundle_and_stamp env \<lparr>commit = h, date = d, updated_at = now_version env\<rparr> tr3"
        using False Inr ci by (auto simp: buildPipeline_def tr0_def cs_def Let_def split: if_splits)
      with tr3(2) show ?thesis by blast
    qed
  qed
qed

text \<open>
  Claim C4. When the sync step reports no new changes (the pull was reached and its output
  contains "Already up to date.") and the index file exists, the run ends at once with
  exit code 0: the pull is the last stage reached, so neither the commit lookup, the menu
  fetch, the pruning, the index build, the legacy backfill, the bundling nor the version
  stamp runs, and no version file is written.
\<close>

theorem up_to_date_short_circuit:
  assumes "sync_reports_up_to_date env" and "indexExists env"
  shows "exit_code (buildPipeline env) = 0
       \<and> stages (buildPipeline env) = (if publicDirExists env then [] else [MkdirPublic]) @ [GitPull]
       \<and> versionFile (buildPipeline env) = None
       \<and> set (stages (buildPipeline env)) \<inter> set later_stages = {}"
  using assms
  by (auto simp: sync_reports_up_to_date_def buildPipeline_def sync_git_def later_stages_def Let_def
           split: cmd_result.splits)

theorem up_to_date_short_circuit_witness:
  "sync_reports_up_to_date env_up_to_date \<and> indexExists env_up_to_date
   \<and> exit_code (buildPipeline env_up_to_date) = 0
   \<and> stages (buildPipeline env_up_to_date) = [GitPull]
   \<and> versionFile (buildPipeline env_up_to_date) = None"
proof -
  have h1: "sync_reports_up_to_date env_up_to_date"
    by (simp add: sync_reports_up_to_date_def env_up_to_date_def str_includes_def)
  have h2: "indexExists env_up_to_date"
    by (simp add: env_up_to_date_def)
  have h3: "publicDirExists env_up_to_date"
    by (simp add: env_up_to_date_def)
  show ?thesis
    using up_to_date_short_circuit [OF h1 h2] h1 h2 h3 by simp
qed

text \<open>
  Claim C7. The version file is written only after the bundler has succeeded: a run that
  reaches the version stamp has the bundling as the stage right before it, and the bundler
  returned an archive; a run that wrote the version file exited 0; and when the bundling
  is reached and fails, the run exits 1 without reaching the version stamp and without a
  version file.
\<close>

theorem version_only_after_bundle:
  "(WriteVersion \<in> set (stages (buildPipeline env)) \<longrightarrow>
      generateBundle env \<noteq> None
      \<and> (\<exists>tr. stages (buildPipeline env) = tr @ [GenerateBundle, WriteVersion]
                \<and> WriteVersion \<notin> set tr \<and> GenerateBundle \<notin> set tr))
   \<and> (versionFile (buildPipeline env) \<noteq> None \<longrightarrow>
        generateBundle env \<noteq> None \<and> exit_code (buildPipeline env) = 0
        \<and> WriteVersion \<in> set (stages (buildPipeline env)))
   \<and> (GenerateBundle \<in> set (stages (buildPipeline env)) \<and> generateBundle env = None \<longrightarrow>
        exit_code (buildPipeline env) = 1
        \<and> WriteVersion \<notin> set (stages (buildPipeline env))
        \<and> versionFile (buildPipeline env) = None)"
  using buildPipeline_cases [of env]
proof
  assume "versionFile (buildPipeline env) = None
            \<and> set (stages (buildPipeline env)) \<inter> {GenerateBundle, WriteVersion} = {}"
  then show ?thesis by auto
next
  assume "\<exists>vi tr. set tr \<inter> {GenerateBundle, WriteVersion} = {}
            \<and> buildPipeline env = bundle_and_stamp env vi tr"
  then obtain vi tr where tr: "set tr \<inter> {GenerateBundle, WriteVersion} = {}"
    and r: "buildPipeline env = bundle_and_stamp env vi tr" by blast
  from tr have "WriteVersion \<notin> set tr" "GenerateBundle \<notin> set tr" by auto
  then show ?thesis
    unfolding r by (cases "generateBundle env") (auto simp: bundle_and_stamp_def)
qed

theorem version_only_after_bundle_witness:
  "GenerateBundle \<in> set (stages (buildPipeline env_bundle_fails))
   \<and> generateBundle env_bundle_fails = None
   \<and> exit_code (buildPipeline env_bundle_fails) = 1
   \<and> WriteVersion \<notin> set (stages (buildPipeline env_bundle_fails))
   \<and> versionFile (buildPipeline env_bundle_fails) = None"
proof -
  have h1: "generateBundle env_bundle_fails = None"
    by (simp add: env_bundle_fails_def)
  have h2: "GenerateBundle \<in> set (stages (buildPipeline env_bundle_fails))"
    by (simp add: env_bundle_fails_def env_up_to_date_def buildPipeline_def sync_git_def
          commit_info_def bundle_and_stamp_def str_includes_def sublist_code)
  show ?thesis
    using version_only_after_bundle [of env_bundle_fails] h1 h2 by simp
qed

section \<open>Objects, paths and walks\<close>

lemma map_of_snoc:
  "map_of (obj @ [(k, v)]) k' = (case map_of obj k' of Some x \<Rightarrow> Some x | None \<Rightarrow> if k' = k then Some v else None)"
  by (induction obj) (auto split: option.splits)

lemma map_of_own_assign: "map_of (own_assign k v obj) = (map_of obj)(k \<mapsto> v)"
  by (induction obj) (auto simp: fun_eq_iff)

lemma keys_own_assign:
  "map fst (own_assign k v obj) = (if k \<in> fst ` set obj then map fst obj else map fst obj @ [k])"
proof (induction obj)
  case Nil
  then show ?case by simp
next
  case (Cons p obj)
  obtain k' v' where p: "p = (k', v')" by (cases p)
  show ?case
  proof (cases "k' = k")
    case True
    then show ?thesis using p by simp
  next
    case False
    then show ?thesis using p Cons.IH by (cases "k \<in> fst ` set obj") auto
  qed
qed

lemma obj_set_ignored:
  "k = ''__proto__'' \<Longrightarrow> map_of obj k = None \<Longrightarrow> obj_set obj k v = obj"
  unfolding obj_set_def by simp

lemma obj_set_assigns:
  "k \<noteq> ''__proto__'' \<or> map_of obj k \<noteq> None \<Longrightarrow> obj_set obj k v = own_assign k v obj"
  unfolding obj_set_def by auto

lemma map_of_obj_set_cases:
  "map_of (obj_set obj k v) = map_of obj \<or> map_of (obj_set obj k v) = (map_of obj)(k \<mapsto> v)"
  unfolding obj_set_def by (simp add: map_of_own_assign)

lemma is_undefined_simps [simp]:
  "is_undefined Undefined" "\<not> is_undefined (Own v)" "\<not> is_undefined Inherited"
  by (simp_all add: is_undefined_def)

lemma obj_get_own: "map_of obj k = Some v \<Longrightarrow> obj_get obj k = Own v"
  by (simp add: obj_get_def)

lemma obj_get_inherited:
  "map_of obj k = None \<Longrightarrow> k \<in> set object_prototype_names \<Longrightarrow> obj_get obj k = Inherited"
  by (simp add: obj_get_def)

lemma obj_get_undefined:
  "map_of obj k = None \<Longrightarrow> k \<notin> set object_prototype_names \<Longrightarrow> obj_get obj k = Undefined"
  by (simp add: obj_get_def)

lemma is_undefined_obj_get:
  "is_undefined (obj_get obj k) \<longleftrightarrow> map_of obj k = None \<and> k \<notin> set object_prototype_names"
  by (simp add: is_undefined_def obj_get_def split: option.splits)

lemma strip_common_append: "strip_common d (d @ rest) = ([], rest)"
  by (induction d) simp_all

lemma path_relative_below: "path_relative d (d @ rest) = joinSlash rest"
  by (simp add: path_relative_def strip_common_append)

lemma walk_node_below:
  "p \<in> set (walk_node dir n) \<Longrightarrow> \<exists>rest. p = dir @ rest \<and> rest \<noteq> []"
proof (induction dir n arbitrary: p rule: walk_node.induct)
  case (1 dir name)
  then show ?case by simp
next
  case (2 dir name children)
  then obtain c where c: "c \<in> set children" "p \<in> set (walk_node (dir @ [name]) c)" by auto
  from "2.IH"[OF c] obtain rest where "p = (dir @ [name]) @ rest" by blast
  then show ?case by (intro exI[of _ "name # rest"]) simp
qed

lemma walkSync_below:
  "p \<in> set (walkSync dir files) \<Longrightarrow> \<exists>rest. p = dir @ rest \<and> rest \<noteq> []"
  by (auto simp: walkSync_def dest: walk_node_below)

section \<open>Properties of the Index Builder\<close>

lemma map_of_add_root:
  "map_of (add_root R p idx) u =
     (case map_of idx u of
        Some e \<Rightarrow> Some e
      | None \<Rightarrow>
          if is_root_file p \<and> root_uid p = u \<and> u \<notin> set object_prototype_names
          then Some \<lparr>root = Some (path_relative R p), translationsOf = []\<rparr>
          else None)"
  by (auto simp: add_root_def Let_def is_undefined_obj_get map_of_snoc simp del: map_of_append split: option.splits)

lemma map_of_fold_add_root:
  "map_of (fold (add_root R) ps idx) u =
     (case map_of idx u of
        Some e \<Rightarrow> Some e
      | None \<Rightarrow>
          if u \<in> set object_prototype_names then None
          else (case find (\<lambda>p. is_root_file p \<and> root_uid p = u) ps of
                  None \<Rightarrow> None
                | Some p \<Rightarrow> Some \<lparr>root = Some (path_relative R p), translationsOf = []\<rparr>))"
proof (induction ps arbitrary: idx)
  case Nil
  then show ?case by (simp split: option.splits)
next
  case (Cons p ps)
  show ?case
    by (simp add: Cons.IH map_of_add_root split: option.splits)
qed

lemma fold_err_append:
  "fold_err f (xs @ ys) s = (case fold_err f xs s of Inl e \<Rightarrow> Inl e | Inr s' \<Rightarrow> fold_err f ys s')"
  by (induction xs arbitrary: s) (auto split: sum.splits)

lemma fold_err_map: "fold_err f (map g xs) s = fold_err (\<lambda>x. f (g x)) xs s"
  by (induction xs arbitrary: s) (auto split: sum.splits)

lemma index_author_flat:
  "fold_err (index_author T) authors idx
     = fold_err (\<lambda>(a, d, p). add_translation a d p) (author_files T authors) idx"
proof (induction authors arbitrary: idx)
  case Nil
  then show ?case by (simp add: author_files_def)
next
  case (Cons n ns)
  have split: "author_files T (n # ns) = author_files T [n] @ author_files T ns"
    by (simp add: author_files_def)
  have one: "index_author T n idx
               = fold_err (\<lambda>(a, d, p). add_translation a d p) (author_files T [n]) idx" for idx
    by (cases n) (simp_all add: index_author_def author_files_def Let_def fold_err_map)
  show ?case
    unfolding split fold_err_append
    by (simp add: one Cons.IH split: sum.splits)
qed

lemma add_translation_cases:
  assumes "add_translation a d p idx = Inr idx'"
  shows "(\<not> is_translation_file p \<and> idx' = idx)
       \<or> (is_translation_file p
           \<and> (\<exists>e. map_of idx (translation_uid p) = Some e
                  \<and> map_of idx' = (map_of idx)(translation_uid p \<mapsto>
                        e\<lparr>translationsOf := obj_set (translationsOf e) a (path_relative d p)\<rparr>)))
       \<or> (is_translation_file p
           \<and> map_of idx (translation_uid p) = None
           \<and> translation_uid p \<notin> set object_prototype_names
           \<and> map_of idx' = (map_of idx)(translation_uid p \<mapsto>
                 \<lparr>root = None, translationsOf = obj_set [] a (path_relative d p)\<rparr>))"
proof (cases "is_translation_file p")
  case False
  with assms show ?thesis by (simp add: add_translation_def)
next
  case True
  show ?thesis
  proof (cases "map_of idx (translation_uid p)")
    case (Some e)
    with assms True have "idx' = own_assign (translation_uid p)
        (e\<lparr>translationsOf := obj_set (translationsOf e) a (path_relative d p)\<rparr>) idx"
      by (simp add: add_translation_def Let_def obj_get_own)
    with True Some show ?thesis by (simp add: map_of_own_assign)
  next
    case None
    show ?thesis
    proof (cases "translation_uid p \<in> set object_prototype_names")
      case inh: True
      with assms \<open>is_translation_file p\<close> None show ?thesis
        by (simp add: add_translation_def Let_def obj_get_inherited)
    next
      case False
      with assms True None have "idx' = own_assign (translation_uid p)
          \<lparr>root = None, translationsOf = obj_set [] a (path_relative d p)\<rparr>
          (idx @ [(translation_uid p, \<lparr>root = None, translationsOf = []\<rparr>)])"
        by (simp add: add_translation_def Let_def obj_get_undefined obj_get_own map_of_snoc del: map_of_append)
      then have "map_of idx' = (map_of idx)(translation_uid p \<mapsto>
                 \<lparr>root = None, translationsOf = obj_set [] a (path_relative d p)\<rparr>)"
        using None by (auto simp: map_of_own_assign fun_eq_iff map_of_snoc simp del: map_of_append split: option.splits)
      with True None False show ?thesis by simp
    qed
  qed
qed

lemma add_translation_throws:
  "add_translation a d p idx = Inl err \<longleftrightarrow>
     err = TypeError \<and> is_translation_file p \<and> map_of idx (translation_uid p) = None
     \<and> translation_uid p \<in> set object_prototype_names"
proof (cases "map_of idx (translation_uid p)")
  case (Some e)
  then show ?thesis by (simp add: add_translation_def Let_def obj_get_own)
next
  case None
  show ?thesis
  proof (cases "translation_uid p \<in> set object_prototype_names")
    case True
    with None show ?thesis by (auto simp: add_translation_def Let_def obj_get_inherited)
  next
    case False
    with None show ?thesis
      by (simp add: add_translation_def Let_def obj_get_undefined obj_get_own map_of_snoc
               del: map_of_append)
  qed
qed

lemma obj_set_lookup:
  "map_of (obj_set obj k v) k' = Some r \<Longrightarrow> map_of obj k' = Some r \<or> (k' = k \<and> r = v)"
  using map_of_obj_set_cases [of obj k v] by (auto split: if_splits)

lemma obj_set_keeps:
  "map_of obj k' = Some r \<Longrightarrow> \<exists>y. map_of (obj_set obj k v) k' = Some y"
  using map_of_obj_set_cases [of obj k v] by (auto split: if_splits)

lemma obj_set_has:
  "k \<noteq> ''__proto__'' \<Longrightarrow> map_of (obj_set obj k v) k = Some v"
  by (simp add: obj_set_assigns map_of_own_assign)

lemma add_translation_old_entry:
  assumes "add_translation a d p idx = Inr idx'" and "map_of idx u = Some e"
  shows "\<exists>e'. map_of idx' u = Some e' \<and> root e' = root e
           \<and> (\<forall>a' r. map_of (translationsOf e) a' = Some r \<longrightarrow> map_of (translationsOf e') a' \<noteq> None)"
  using add_translation_cases [OF assms(1)]
proof (elim disjE conjE exE)
  assume "idx' = idx"
  with assms(2) show ?thesis by simp
next
  fix e0
  assume old: "map_of idx (translation_uid p) = Some e0"
    "map_of idx' = (map_of idx)(translation_uid p \<mapsto>
       e0\<lparr>translationsOf := obj_set (translationsOf e0) a (path_relative d p)\<rparr>)"
  show ?thesis
  proof (cases "u = translation_uid p")
    case True
    with old assms(2) have e0: "e0 = e" by simp
    have "map_of idx' u = Some (e\<lparr>translationsOf := obj_set (translationsOf e) a (path_relative d p)\<rparr>)"
      using old(2) True e0 by simp
    moreover have "\<forall>a' r. map_of (translationsOf e) a' = Some r \<longrightarrow>
        map_of (obj_set (translationsOf e) a (path_relative d p)) a' \<noteq> None"
      using obj_set_keeps [of "translationsOf e"] by fastforce
    ultimately show ?thesis by simp
  next
    case False
    with old(2) assms(2) show ?thesis by simp
  qed
next
  assume new: "map_of idx (translation_uid p) = None"
    "map_of idx' = (map_of idx)(translation_uid p \<mapsto>
       \<lparr>root = None, translationsOf = obj_set [] a (path_relative d p)\<rparr>)"
  with assms(2) have "u \<noteq> translation_uid p" by auto
  with new(2) assms(2) show ?thesis by simp
qed

lemma add_translation_new_entry:
  assumes "add_translation a d p idx = Inr idx'" and "map_of idx u = None"
      and "map_of idx' u = Some e'"
  shows "root e' = None \<and> u \<notin> set object_prototype_names
         \<and> is_translation_file p \<and> translation_uid p = u"
  using add_translation_cases [OF assms(1)] assms(2,3)
  by (auto split: if_splits)

lemma add_translation_key:
  assumes "add_translation a d p idx = Inr idx'" and "is_translation_file p"
  shows "\<exists>e'. map_of idx' (translation_uid p) = Some e'
           \<and> (a = ''__proto__'' \<or> map_of (translationsOf e') a = Some (path_relative d p))"
  using add_translation_cases [OF assms(1)]
proof (elim disjE conjE exE)
  assume "\<not> is_translation_file p"
  with assms(2) show ?thesis by simp
next
  fix e0
  assume old: "map_of idx' = (map_of idx)(translation_uid p \<mapsto>
       e0\<lparr>translationsOf := obj_set (translationsOf e0) a (path_relative d p)\<rparr>)"
  have "map_of idx' (translation_uid p)
          = Some (e0\<lparr>translationsOf := obj_set (translationsOf e0) a (path_relative d p)\<rparr>)"
    using old by simp
  then show ?thesis using obj_set_has [of a "translationsOf e0" "path_relative d p"] by auto
next
  assume new: "map_of idx' = (map_of idx)(translation_uid p \<mapsto>
       \<lparr>root = None, translationsOf = obj_set [] a (path_relative d p)\<rparr>)"
  have "map_of idx' (translation_uid p)
          = Some \<lparr>root = None, translationsOf = obj_set [] a (path_relative d p)\<rparr>"
    using new by simp
  then show ?thesis using obj_set_has [of a "[]" "path_relative d p"] by auto
qed

lemma add_translation_provenance:
  assumes "add_translation a d p idx = Inr idx'" and "map_of idx' u = Some e'"
      and "map_of (translationsOf e') b = Some rel"
  shows "(\<exists>e. map_of idx u = Some e \<and> map_of (translationsOf e) b = Some rel)
       \<or> (b = a \<and> is_translation_file p \<and> translation_uid p = u \<and> rel = path_relative d p)"
  using add_translation_cases [OF assms(1)]
proof (elim disjE conjE exE)
  assume "idx' = idx"
  with assms(2,3) show ?thesis by simp
next
  fix e
  assume old: "is_translation_file p" "map_of idx (translation_uid p) = Some e"
    "map_of idx' = (map_of idx)(translation_uid p \<mapsto>
       e\<lparr>translationsOf := obj_set (translationsOf e) a (path_relative d p)\<rparr>)"
  show ?thesis
  proof (cases "u = translation_uid p")
    case True
    with old assms(2) have e': "e' = e\<lparr>translationsOf := obj_set (translationsOf e) a (path_relative d p)\<rparr>"
      by simp
    with assms(3) have "map_of (obj_set (translationsOf e) a (path_relative d p)) b = Some rel"
      by simp
    from obj_set_lookup [OF this]
    have "map_of (translationsOf e) b = Some rel \<or> (b = a \<and> rel = path_relative d p)" .
    then show ?thesis using old(1,2) True by auto
  next
    case False
    with old assms(2,3) show ?thesis by simp
  qed
next
  assume new: "is_translation_file p" "map_of idx (translation_uid p) = None"
    "map_of idx' = (map_of idx)(translation_uid p \<mapsto>
       \<lparr>root = None, translationsOf = obj_set [] a (path_relative d p)\<rparr>)"
  show ?thesis
  proof (cases "u = translation_uid p")
    case True
    with new assms(2) have e': "e' = \<lparr>root = None, translationsOf = obj_set [] a (path_relative d p)\<rparr>"
      by simp
    with assms(3) have "map_of (obj_set [] a (path_relative d p)) b = Some rel"
      by simp
    from obj_set_lookup [OF this] have "b = a \<and> rel = path_relative d p" by simp
    then show ?thesis using new(1) True by auto
  next
    case False
    with new assms(2,3) show ?thesis by simp
  qed
qed

lemma fold_old_entry:
  assumes "fold_err (\<lambda>(a, d, p). add_translation a d p) work idx = Inr idx'"
      and "map_of idx u = Some e"
  shows "\<exists>e'. map_of idx' u = Some e' \<and> root e' = root e
           \<and> (\<forall>a' r. map_of (translationsOf e) a' = Some r \<longrightarrow> map_of (translationsOf e') a' \<noteq> None)"
  using assms
proof (induction work arbitrary: idx e)
  case Nil
  then show ?case by simp
next
  case (Cons w work)
  obtain a d p where w: "w = (a, d, p)" by (cases w)
  from Cons.prems(1) w obtain idx1 where
    step: "add_translation a d p idx = Inr idx1"
    and rest: "fold_err (\<lambda>(a, d, p). add_translation a d p) work idx1 = Inr idx'"
    by (auto split: sum.splits)
  from add_translation_old_entry [OF step Cons.prems(2)] obtain e1 where
    e1: "map_of idx1 u = Some e1" "root e1 = root e"
        "\<forall>a' r. map_of (translationsOf e) a' = Some r \<longrightarrow> map_of (translationsOf e1) a' \<noteq> None"
    by blast
  from Cons.IH [OF rest e1(1)] obtain e' where
    e': "map_of idx' u = Some e'" "root e' = root e1"
        "\<forall>a' r. map_of (translationsOf e1) a' = Some r \<longrightarrow> map_of (translationsOf e') a' \<noteq> None"
    by blast
  have "\<forall>a' r. map_of (translationsOf e) a' = Some r \<longrightarrow> map_of (translationsOf e') a' \<noteq> None"
    using e1(3) e'(3) by fastforce
  with e'(1,2) e1(2) show ?case by simp
qed

lemma fold_new_entry:
  assumes "fold_err (\<lambda>(a, d, p). add_translation a d p) work idx = Inr idx'"
      and "map_of idx u = None" and "map_of idx' u = Some e'"
  shows "root e' = None \<and> u \<notin> set object_prototype_names
         \<and> (\<exists>a d p. (a, d, p) \<in> set work \<and> is_translation_file p \<and> translation_uid p = u)"
  using assms
proof (induction work arbitrary: idx)
  case Nil
  then show ?case by simp
next
  case (Cons w work)
  obtain a d p where w: "w = (a, d, p)" by (cases w)
  from Cons.prems(1) w obtain idx1 where
    step: "add_translation a d p idx = Inr idx1"
    and rest: "fold_err (\<lambda>(a, d, p). add_translation a d p) work idx1 = Inr idx'"
    by (auto split: sum.splits)
  show ?case
  proof (cases "map_of idx1 u")
    case None
    from Cons.IH [OF rest None Cons.prems(3)] show ?thesis by auto
  next
    case (Some e1)
    from add_translation_new_entry [OF step Cons.prems(2) Some]
    have n: "root e1 = None" "u \<notin> set object_prototype_names"
            "is_translation_file p" "translation_uid p = u" by simp_all
    from fold_old_entry [OF rest Some] Cons.prems(3) have "root e' = root e1" by auto
    with n w show ?thesis by auto
  qed
qed

lemma fold_key:
  assumes "fold_err (\<lambda>(a, d, p). add_translation a d p) work idx = Inr idx'"
      and "(a, d, p) \<in> set work" and "is_translation_file p"
  shows "\<exists>e'. map_of idx' (translation_uid p) = Some e'
           \<and> (a = ''__proto__'' \<or> map_of (translationsOf e') a \<noteq> None)"
  using assms
proof (induction work arbitrary: idx)
  case Nil
  then show ?case by simp
next
  case (Cons w work)
  obtain a0 d0 p0 where w: "w = (a0, d0, p0)" by (cases w)
  from Cons.prems(1) w obtain idx1 where
    step: "add_translation a0 d0 p0 idx = Inr idx1"
    and rest: "fold_err (\<lambda>(a, d, p). add_translation a d p) work idx1 = Inr idx'"
    by (auto split: sum.splits)
  show ?case
  proof (cases "(a, d, p) \<in> set work")
    case True
    from Cons.IH [OF rest True Cons.prems(3)] show ?thesis .
  next
    case False
    with Cons.prems(2) w have eq: "a0 = a" "d0 = d" "p0 = p" by auto
    from add_translation_key [OF step [unfolded eq] Cons.prems(3)] obtain e1 where
      e1: "map_of idx1 (translation_uid p) = Some e1"
          "a = ''__proto__'' \<or> map_of (translationsOf e1) a = Some (path_relative d p)" by blast
    from fold_old_entry [OF rest e1(1)] obtain e' where
      e': "map_of idx' (translation_uid p) = Some e'"
          "\<forall>a' r. map_of (translationsOf e1) a' = Some r \<longrightarrow> map_of (translationsOf e') a' \<noteq> None"
      by blast
    from e1(2) e'(2) have "a = ''__proto__'' \<or> map_of (translationsOf e') a \<noteq> None" by blast
    with e'(1) show ?thesis by blast
  qed
qed

lemma fold_provenance:
  assumes "fold_err (\<lambda>(a, d, p). add_translation a d p) work idx = Inr idx'"
      and "map_of idx' u = Some e'" and "map_of (translationsOf e') b = Some rel"
  shows "(\<exists>e. map_of idx u = Some e \<and> map_of (translationsOf e) b = Some rel)
       \<or> (\<exists>d p. (b, d, p) \<in> set work \<and> is_translation_file p \<and> translation_uid p = u
                 \<and> rel = path_relative d p)"
  using assms
proof (induction work arbitrary: idx)
  case Nil
  then show ?case by simp
next
  case (Cons w work)
  obtain a0 d0 p0 where w: "w = (a0, d0, p0)" by (cases w)
  from Cons.prems(1) w obtain idx1 where
    step: "add_translation a0 d0 p0 idx = Inr idx1"
    and rest: "fold_err (\<lambda>(a, d, p). add_translation a d p) work idx1 = Inr idx'"
    by (auto split: sum.splits)
  from Cons.IH [OF rest Cons.prems(2,3)] show ?case
  proof
    assume "\<exists>e. map_of idx1 u = Some e \<and> map_of (translationsOf e) b = Some rel"
    then obtain e1 where e1: "map_of idx1 u = Some e1" "map_of (translationsOf e1) b = Some rel"
      by blast
    from add_translation_provenance [OF step e1] show ?thesis using w by auto
  next
    assume "\<exists>d p. (b, d, p) \<in> set work \<and> is_translation_file p \<and> translation_uid p = u
               \<and> rel = path_relative d p"
    then show ?thesis by auto
  qed
qed

lemma buildIndex_Inr:
  assumes "buildIndex B rootDir transDir = Inr idx"
  shows "fold_err (\<lambda>(a, d, p). add_translation a d p) (translation_files B transDir)
           (fold (add_root (B @ [''root'', ''pli'', ''ms''])) (root_files B rootDir) []) = Inr idx"
proof -
  have r: "index_roots (B @ [''root'', ''pli'', ''ms'']) rootDir
             = Inr (fold (add_root (B @ [''root'', ''pli'', ''ms''])) (root_files B rootDir) [])"
    using assms by (cases rootDir) (simp_all add: buildIndex_def index_roots_def root_files_def)
  have t: "index_translations (B @ [''translation'', ''en'']) transDir i
             = Inr idx \<Longrightarrow>
           fold_err (\<lambda>(a, d, p). add_translation a d p) (translation_files B transDir) i = Inr idx" for i
    by (cases transDir) (simp_all add: index_translations_def translation_files_def index_author_flat)
  from assms r show ?thesis by (simp add: buildIndex_def t)
qed

lemma find_first:
  assumes "ps = pre @ p # post" and "P p" and "list_all (\<lambda>q. \<not> P q) pre"
  shows "find P ps = Some p"
  using assms by (induction pre arbitrary: ps) auto

lemma buildIndex_root_phase:
  "map_of (fold (add_root R) ps []) u =
     (if u \<in> set object_prototype_names then None
      else (case find (\<lambda>p. is_root_file p \<and> root_uid p = u) ps of
              None \<Rightarrow> None
            | Some p \<Rightarrow> Some \<lparr>root = Some (path_relative R p), translationsOf = []\<rparr>))"
  by (simp add: map_of_fold_add_root)

text \<open>
  Claim C9, as the code has it. When several root files of the walk give the same
  identifier, the first of them in the order of the walk determines the root path of the
  entry: the guard \<^verbatim>\<open>if (!index[uid])\<close> keeps the entry that exists, and the walk over the
  translations does not touch the root path. (The identifier is one the index can hold
  as an entry: not the name of a member of \<^verbatim>\<open>Object.prototype\<close>.)
\<close>

theorem first_root_file_wins:
  assumes build: "buildIndex BASE_DIR rootDir translationDir = Inr idx"
      and walk: "root_files BASE_DIR rootDir = pre @ p # post"
      and p: "is_root_file p" "root_uid p = uid"
      and first: "list_all (\<lambda>q. \<not> (is_root_file q \<and> root_uid q = uid)) pre"
      and own: "uid \<notin> set object_prototype_names"
  shows "\<exists>e. map_of idx uid = Some e
           \<and> root e = Some (path_relative (BASE_DIR @ [''root'', ''pli'', ''ms'']) p)"
proof -
  let ?R = "BASE_DIR @ [''root'', ''pli'', ''ms'']"
  have "find (\<lambda>q. is_root_file q \<and> root_uid q = uid) (root_files BASE_DIR rootDir) = Some p"
    using find_first [OF walk, of "\<lambda>q. is_root_file q \<and> root_uid q = uid"] p first by simp
  then have "map_of (fold (add_root ?R) (root_files BASE_DIR rootDir) []) uid
               = Some \<lparr>root = Some (path_relative ?R p), translationsOf = []\<rparr>"
    using own by (simp add: buildIndex_root_phase)
  from fold_old_entry [OF buildIndex_Inr [OF build] this]
  show ?thesis by auto
qed

text \<open>
  Claim C9, as stated, fails: with the same root file name in two directories, both of
  which give the identifier \<^verbatim>\<open>dn1\<close>, the entry holds the path of the file met first,
  not that of the file met later.
\<close>

theorem later_root_file_ignored:
  "root_files base_dir two_roots
     = [base_dir @ [''root'', ''pli'', ''ms'', ''sutta'', ''dn'', ''dn1_root-pli-ms.json''],
        base_dir @ [''root'', ''pli'', ''ms'', ''xplayground'', ''dn1_root-pli-ms.json'']]
   \<and> is_root_file (base_dir @ [''root'', ''pli'', ''ms'', ''xplayground'', ''dn1_root-pli-ms.json''])
   \<and> root_uid (base_dir @ [''root'', ''pli'', ''ms'', ''sutta'', ''dn'', ''dn1_root-pli-ms.json'']) = ''dn1''
   \<and> root_uid (base_dir @ [''root'', ''pli'', ''ms'', ''xplayground'', ''dn1_root-pli-ms.json'']) = ''dn1''
   \<and> path_relative (base_dir @ [''root'', ''pli'', ''ms''])
         (base_dir @ [''root'', ''pli'', ''ms'', ''xplayground'', ''dn1_root-pli-ms.json''])
       = ''xplayground/dn1_root-pli-ms.json''
   \<and> buildIndex base_dir two_roots Absent
       = Inr [(''dn1'', \<lparr>root = Some ''sutta/dn/dn1_root-pli-ms.json'', translationsOf = []\<rparr>)]"
  by (simp add: root_files_def two_roots_def base_dir_def walkSync_def is_root_file_def
        root_uid_def basename_def path_string_def endsWith_def suffix_to_prefix
        path_relative_def buildIndex_def index_roots_def index_translations_def add_root_def
        obj_get_def is_undefined_def object_prototype_names_def Let_def)

theorem first_root_file_wins_witness:
  "buildIndex base_dir two_roots Absent
     = Inr [(''dn1'', \<lparr>root = Some ''sutta/dn/dn1_root-pli-ms.json'', translationsOf = []\<rparr>)]
   \<and> (\<exists>e. map_of [(''dn1'', \<lparr>root = Some ''sutta/dn/dn1_root-pli-ms.json'', translationsOf = []\<rparr>)]
               ''dn1'' = Some e
          \<and> root e = Some (path_relative (base_dir @ [''root'', ''pli'', ''ms''])
                  (base_dir @ [''root'', ''pli'', ''ms'', ''sutta'', ''dn'', ''dn1_root-pli-ms.json''])))"
proof -
  let ?p = "base_dir @ [''root'', ''pli'', ''ms'', ''sutta'', ''dn'', ''dn1_root-pli-ms.json'']"
  let ?q = "base_dir @ [''root'', ''pli'', ''ms'', ''xplayground'', ''dn1_root-pli-ms.json'']"
  have build: "buildIndex base_dir two_roots Absent
     = Inr [(''dn1'', \<lparr>root = Some ''sutta/dn/dn1_root-pli-ms.json'', translationsOf = []\<rparr>)]"
    by (simp add: root_files_def two_roots_def base_dir_def walkSync_def is_root_file_def
        root_uid_def basename_def path_string_def endsWith_def suffix_to_prefix
        path_relative_def buildIndex_def index_roots_def index_translations_def add_root_def
        obj_get_def is_undefined_def object_prototype_names_def Let_def)
  have walk: "root_files base_dir two_roots = [] @ ?p # [?q]"
    by (simp add: root_files_def two_roots_def base_dir_def walkSync_def)
  have p: "is_root_file ?p" "root_uid ?p = ''dn1''"
    by (simp_all add: is_root_file_def root_uid_def basename_def path_string_def endsWith_def
          suffix_to_prefix base_dir_def)
  have first: "list_all (\<lambda>q. \<not> (is_root_file q \<and> root_uid q = ''dn1'')) []" by simp
  have own: "''dn1'' \<notin> set object_prototype_names"
    by (simp add: object_prototype_names_def)
  from first_root_file_wins [OF build walk p first own] build show ?thesis by simp
qed

text \<open>
  Claim C3 at a root file whose identifier is \<^verbatim>\<open>constructor\<close>: the file is discovered, its
  identifier is read, and the index that is built has no entry for it, because
  \<^verbatim>\<open>index["constructor"]\<close> reads the inherited member, which is truthy.
\<close>

theorem inherited_name_gets_no_entry:
  "root_files base_dir constructor_root
     = [base_dir @ [''root'', ''pli'', ''ms'', ''constructor_root-pli-ms.json'']]
   \<and> is_root_file (base_dir @ [''root'', ''pli'', ''ms'', ''constructor_root-pli-ms.json''])
   \<and> root_uid (base_dir @ [''root'', ''pli'', ''ms'', ''constructor_root-pli-ms.json''])
       = ''constructor''
   \<and> buildIndex base_dir constructor_root Absent = Inr []"
  by (simp add: root_files_def constructor_root_def base_dir_def walkSync_def is_root_file_def
        root_uid_def basename_def path_string_def endsWith_def suffix_to_prefix
        buildIndex_def index_roots_def index_translations_def add_root_def
        obj_get_def is_undefined_def object_prototype_names_def Let_def)

text \<open>
  For every other identifier the index has an entry exactly when a root file or a
  translation file for it was discovered; a translation without a root gives an entry
  whose root is \<^verbatim>\<open>null\<close>; and an entry without a root has a translation, unless its
  translations all come from a directory named \<^verbatim>\<open>__proto__\<close>, a key the assignment
  \<^verbatim>\<open>translations[author] = ...\<close> does not create.
\<close>

lemma index_entries_discovered:
  assumes build: "buildIndex B rootDir transDir = Inr idx"
      and own: "uid \<notin> set object_prototype_names"
  shows "map_of idx uid \<noteq> None \<longleftrightarrow>
           (\<exists>p. p \<in> set (root_files B rootDir) \<and> is_root_file p \<and> root_uid p = uid)
         \<or> (\<exists>a d p. (a, d, p) \<in> set (translation_files B transDir)
                   \<and> is_translation_file p \<and> translation_uid p = uid)"
proof -
  let ?R = "B @ [''root'', ''pli'', ''ms'']"
  let ?idx1 = "fold (add_root ?R) (root_files B rootDir) []"
  note fe = buildIndex_Inr [OF build]
  show ?thesis
  proof
    assume "map_of idx uid \<noteq> None"
    then obtain e where e: "map_of idx uid = Some e" by auto
    show "(\<exists>p. p \<in> set (root_files B rootDir) \<and> is_root_file p \<and> root_uid p = uid)
         \<or> (\<exists>a d p. (a, d, p) \<in> set (translation_files B transDir)
                   \<and> is_translation_file p \<and> translation_uid p = uid)"
    proof (cases "map_of ?idx1 uid")
      case None
      from fold_new_entry [OF fe None e] show ?thesis by blast
    next
      case (Some e1)
      then obtain p where "find (\<lambda>p. is_root_file p \<and> root_uid p = uid) (root_files B rootDir) = Some p"
        by (auto simp: buildIndex_root_phase split: if_splits option.splits)
      then have "p \<in> set (root_files B rootDir) \<and> is_root_file p \<and> root_uid p = uid"
        by (auto simp: find_Some_iff)
      then show ?thesis by blast
    qed
  next
    assume "(\<exists>p. p \<in> set (root_files B rootDir) \<and> is_root_file p \<and> root_uid p = uid)
         \<or> (\<exists>a d p. (a, d, p) \<in> set (translation_files B transDir)
                   \<and> is_translation_file p \<and> translation_uid p = uid)"
    then show "map_of idx uid \<noteq> None"
    proof
      assume "\<exists>p. p \<in> set (root_files B rootDir) \<and> is_root_file p \<and> root_uid p = uid"
      then have "find (\<lambda>p. is_root_file p \<and> root_uid p = uid) (root_files B rootDir) \<noteq> None"
        by (auto simp: find_None_iff)
      then obtain e1 where "map_of ?idx1 uid = Some e1"
        using own by (auto simp: buildIndex_root_phase)
      from fold_old_entry [OF fe this] show ?thesis by auto
    next
      assume "\<exists>a d p. (a, d, p) \<in> set (translation_files B transDir)
                   \<and> is_translation_file p \<and> translation_uid p = uid"
      then obtain a d p where "(a, d, p) \<in> set (translation_files B transDir)"
        "is_translation_file p" "translation_uid p = uid" by blast
      from fold_key [OF fe this(1,2)] this(3) show ?thesis by auto
    qed
  qed
qed

lemma partial_entry_kept:
  assumes build: "buildIndex B rootDir transDir = Inr idx"
      and t: "(a, d, p) \<in> set (translation_files B transDir)" "is_translation_file p"
      and noroot: "list_all (\<lambda>q. \<not> (is_root_file q \<and> root_uid q = translation_uid p))
                     (root_files B rootDir)"
  shows "\<exists>e. map_of idx (translation_uid p) = Some e \<and> root e = None"
proof -
  let ?R = "B @ [''root'', ''pli'', ''ms'']"
  let ?idx1 = "fold (add_root ?R) (root_files B rootDir) []"
  note fe = buildIndex_Inr [OF build]
  from noroot have "find (\<lambda>q. is_root_file q \<and> root_uid q = translation_uid p) (root_files B rootDir) = None"
    by (auto simp: find_None_iff list_all_iff)
  then have none: "map_of ?idx1 (translation_uid p) = None"
    by (simp add: buildIndex_root_phase)
  from fold_key [OF fe t] obtain e where e: "map_of idx (translation_uid p) = Some e" by blast
  from fold_new_entry [OF fe none e] e show ?thesis by blast
qed

lemma entry_not_empty:
  assumes build: "buildIndex B rootDir transDir = Inr idx"
      and e: "map_of idx uid = Some e"
  shows "root e \<noteq> None \<or> translationsOf e \<noteq> []
       \<or> (\<exists>d p. (''__proto__'', d, p) \<in> set (translation_files B transDir)
                 \<and> is_translation_file p \<and> translation_uid p = uid)"
proof -
  let ?R = "B @ [''root'', ''pli'', ''ms'']"
  let ?idx1 = "fold (add_root ?R) (root_files B rootDir) []"
  note fe = buildIndex_Inr [OF build]
  show ?thesis
  proof (cases "map_of ?idx1 uid")
    case (Some e1)
    then have "root e1 \<noteq> None"
      by (auto simp: buildIndex_root_phase split: if_splits option.splits)
    with fold_old_entry [OF fe Some] e show ?thesis by auto
  next
    case None
    from fold_new_entry [OF fe None e] obtain a d p where
      w: "(a, d, p) \<in> set (translation_files B transDir)" "is_translation_file p"
         "translation_uid p = uid" by blast
    from fold_key [OF fe w(1,2)] w(3) e
    have "a = ''__proto__'' \<or> map_of (translationsOf e) a \<noteq> None" by auto
    then show ?thesis
    proof
      assume "a = ''__proto__''"
      with w show ?thesis by blast
    next
      assume "map_of (translationsOf e) a \<noteq> None"
      then have "translationsOf e \<noteq> []" by auto
      then show ?thesis by simp
    qed
  qed
qed

section \<open>Paths of the facets\<close>

lemma splitSlash_plain: "CHR ''/'' \<notin> set name \<Longrightarrow> splitSlash name = [name]"
  by (induction name) (auto split: list.splits)

lemma splitSlash_nonempty [simp]: "splitSlash s \<noteq> []"
  by (induction s) (auto split: list.splits)

lemma splitSlash_append:
  "CHR ''/'' \<notin> set name \<Longrightarrow> splitSlash (name @ CHR ''/'' # s) = name # splitSlash s"
  by (induction name) (auto split: list.splits)

lemma splitSlash_joinSlash:
  "segs \<noteq> [] \<Longrightarrow> list_all (\<lambda>seg. CHR ''/'' \<notin> set seg) segs \<Longrightarrow> splitSlash (joinSlash segs) = segs"
proof (induction segs rule: joinSlash.induct)
  case 1
  then show ?case by simp
next
  case (2 seg)
  then show ?case by (simp add: splitSlash_plain)
next
  case (3 seg s2 segs)
  then show ?case by (simp add: splitSlash_append)
qed

lemma normalize_plain:
  "list_all plain_name segs \<Longrightarrow> fold normalize_step segs base = base @ segs"
  by (induction segs arbitrary: base) (auto simp: normalize_step_def plain_name_def)

lemma normalize_skip_dot [simp]: "normalize_step ''.'' base = base"
  by (simp add: normalize_step_def)

lemma joinSlash_snoc: "segs \<noteq> [] \<Longrightarrow> joinSlash (segs @ [x]) = joinSlash segs @ CHR ''/'' # x"
  by (induction segs rule: joinSlash.induct) simp_all

lemma plain_name_hd: "plain_name s \<Longrightarrow> s \<noteq> [] \<and> hd s \<noteq> CHR ''/''"
  unfolding plain_name_def by (metis hd_in_set)

lemma no_slash_rev_hd: "x \<noteq> [] \<Longrightarrow> CHR ''/'' \<notin> set x \<Longrightarrow> hd (rev x) \<noteq> CHR ''/''"
  by (metis hd_rev last_in_set)

lemma joinSlash_hd:
  "segs \<noteq> [] \<Longrightarrow> list_all plain_name segs \<Longrightarrow>
     joinSlash segs \<noteq> [] \<and> hd (joinSlash segs) \<noteq> CHR ''/''"
proof (induction segs rule: joinSlash.induct)
  case 1
  then show ?case by simp
next
  case (2 seg)
  then show ?case using plain_name_hd [of seg] by simp
next
  case (3 seg s2 segs)
  then show ?case using plain_name_hd [of seg] by (simp add: hd_append)
qed

lemma takeWhile_no_slash:
  "CHR ''/'' \<notin> set x \<Longrightarrow> takeWhile (\<lambda>c. c \<noteq> CHR ''/'') (rev x @ ys) = rev x @ takeWhile (\<lambda>c. c \<noteq> CHR ''/'') ys"
  by (rule takeWhile_append2) auto

lemma dropWhile_no_slash:
  "CHR ''/'' \<notin> set x \<Longrightarrow> dropWhile (\<lambda>c. c \<noteq> CHR ''/'') (rev x @ ys) = dropWhile (\<lambda>c. c \<noteq> CHR ''/'') ys"
  by (rule dropWhile_append2) auto

lemma dropWhile_slash_keeps:
  "x \<noteq> [] \<Longrightarrow> CHR ''/'' \<notin> set x \<Longrightarrow> dropWhile (\<lambda>c. c = CHR ''/'') (rev x @ ys) = rev x @ ys"
  using no_slash_rev_hd [of x] by (cases "rev x") auto

lemma str_basename_single: "CHR ''/'' \<notin> set x \<Longrightarrow> str_basename x = x"
proof (cases "x = []")
  case True
  then show ?thesis by (simp add: str_basename_def)
next
  case False
  assume a: "CHR ''/'' \<notin> set x"
  have d: "dropWhile (\<lambda>c. c = CHR ''/'') (rev x) = rev x"
    using dropWhile_slash_keeps [OF False a, of "[]"] by simp
  have t: "takeWhile (\<lambda>c. c \<noteq> CHR ''/'') (rev x) = rev x"
    using a by auto
  show ?thesis unfolding str_basename_def d t by (rule rev_rev_ident)
qed

lemma str_basename_append:
  assumes "x \<noteq> []" and "CHR ''/'' \<notin> set x"
  shows "str_basename (pre @ CHR ''/'' # x) = x"
  using dropWhile_slash_keeps [OF assms, of "CHR ''/'' # rev pre"]
        takeWhile_no_slash [OF assms(2), of "CHR ''/'' # rev pre"]
  unfolding str_basename_def by simp

lemma str_dirname_single:
  assumes "x \<noteq> []" and "CHR ''/'' \<notin> set x"
  shows "str_dirname x = ''.''"
proof -
  from assms have t: "CHR ''/'' \<notin> set (tl x)" by (cases x) auto
  have "dropWhile (\<lambda>c. c \<noteq> CHR ''/'') (dropWhile (\<lambda>c. c = CHR ''/'') (rev (tl x))) = []"
  proof (cases "tl x = []")
    case True
    then show ?thesis by simp
  next
    case False
    from dropWhile_slash_keeps [OF False t, of "[]"] dropWhile_no_slash [OF t, of "[]"]
    show ?thesis by simp
  qed
  moreover have "hd x \<noteq> CHR ''/''" using assms by (cases x) auto
  ultimately show ?thesis using assms(1) unfolding str_dirname_def Let_def
    by (simp only: if_True if_False refl)
qed

lemma str_dirname_append:
  assumes "pre \<noteq> []" and "hd pre \<noteq> CHR ''/''" and "x \<noteq> []" and "CHR ''/'' \<notin> set x"
  shows "str_dirname (pre @ CHR ''/'' # x) = pre"
proof -
  let ?p = "pre @ CHR ''/'' # x"
  have tl: "rev (tl ?p) = rev x @ CHR ''/'' # rev (tl pre)" using assms(1) by simp
  have d: "dropWhile (\<lambda>c. c = CHR ''/'') (rev x @ CHR ''/'' # rev (tl pre))
                  = rev x @ CHR ''/'' # rev (tl pre)"
    by (rule dropWhile_slash_keeps [OF assms(3,4)])
  have d2: "dropWhile (\<lambda>c. c \<noteq> CHR ''/'') (rev x @ CHR ''/'' # rev (tl pre))
              = CHR ''/'' # rev (tl pre)"
    using dropWhile_no_slash [OF assms(4), of "CHR ''/'' # rev (tl pre)"] by simp
  have len: "Suc (length (tl pre)) = length pre" using assms(1) by (cases pre) auto
  have hd: "hd ?p = hd pre" using assms(1) by simp
  have ne: "?p \<noteq> []" by simp
  have cut: "length (CHR ''/'' # rev (tl pre)) = length pre" using len by simp
  have nn: "CHR ''/'' # rev (tl pre) \<noteq> []" by simp
  have tk: "take (length pre) ?p = pre" by simp
  show ?thesis
    unfolding str_dirname_def Let_def tl d d2 hd cut
    using assms(2) ne nn tk by (simp only: if_True if_False simp_thms)
qed

lemma str_replace_chars: "set (str_replace pat rep s) \<subseteq> set s \<union> set rep"
proof (induction s)
  case Nil
  then show ?case by auto
next
  case (Cons c cs)
  have "set (drop (length pat) (c # cs)) \<subseteq> set (c # cs)" by (rule set_drop_subset)
  with Cons show ?case by auto
qed

lemma str_replace_found:
  "sublist pat s \<Longrightarrow> \<exists>pre post. str_replace pat rep s = pre @ rep @ post"
proof (induction s)
  case Nil
  then have "str_replace pat rep [] = [] @ rep @ []" by simp
  then show ?case by blast
next
  case (Cons c cs)
  show ?case
  proof (cases "prefix pat (c # cs)")
    case True
    then have "str_replace pat rep (c # cs) = [] @ rep @ drop (length pat) (c # cs)" by simp
    then show ?thesis by blast
  next
    case False
    with Cons.prems have "sublist pat cs" by (simp add: sublist_Cons_right)
    from Cons.IH [OF this] obtain pre post where "str_replace pat rep cs = pre @ rep @ post" by blast
    with False have "str_replace pat rep (c # cs) = (c # pre) @ rep @ post" by simp
    then show ?thesis by blast
  qed
qed

lemma comment_filename_plain:
  assumes "CHR ''/'' \<notin> set name" and "str_includes name ''_translation-en-''"
  shows "plain_name (str_replace ''translation-'' ''comment-'' name)"
proof -
  have "sublist ''translation-'' ''_translation-en-''"
    by (simp add: sublist_code)
  with assms(2) have "sublist ''translation-'' name"
    unfolding str_includes_def by (meson sublist_order.order.trans)
  from str_replace_found [OF this, of "''comment-''"] obtain pre post where
    r: "str_replace ''translation-'' ''comment-'' name = pre @ ''comment-'' @ post" by blast
  have "CHR ''/'' \<notin> set (str_replace ''translation-'' ''comment-'' name)"
    using str_replace_chars [of "''translation-''" "''comment-''" name] assms(1) by auto
  moreover have "length (str_replace ''translation-'' ''comment-'' name) \<ge> 8"
    unfolding r by simp
  ultimately show ?thesis unfolding plain_name_def by auto
qed

lemma walk_node_plain:
  "p \<in> set (walk_node dir n) \<Longrightarrow> plain_node n \<Longrightarrow>
     \<exists>rest. p = dir @ rest \<and> rest \<noteq> [] \<and> list_all plain_name rest"
proof (induction dir n arbitrary: p rule: walk_node.induct)
  case (1 dir name)
  then show ?case by simp
next
  case (2 dir name children)
  then obtain c where c: "c \<in> set children" "p \<in> set (walk_node (dir @ [name]) c)" by auto
  from "2.prems"(2) c(1) have pc: "plain_node c" "plain_name name" by (auto simp: list_all_iff)
  from "2.IH" [OF c pc(1)] obtain rest where
    "p = (dir @ [name]) @ rest" "list_all plain_name rest" by blast
  with pc(2) show ?case by (intro exI[of _ "name # rest"]) simp
qed

lemma walkSync_plain:
  "p \<in> set (walkSync dir files) \<Longrightarrow> list_all plain_node files \<Longrightarrow>
     \<exists>rest. p = dir @ rest \<and> rest \<noteq> [] \<and> list_all plain_name rest"
  by (auto simp: walkSync_def list_all_iff dest: walk_node_plain)

lemma plain_no_slash: "list_all plain_name segs \<Longrightarrow> list_all (\<lambda>seg. CHR ''/'' \<notin> set seg) segs"
  by (induction segs) (auto simp: plain_name_def)

lemma translationPath_plain:
  assumes "plain_name a" and "rest \<noteq> []" and "list_all plain_name rest"
  shows "translationPath B a (joinSlash rest) = B @ [''translation'', ''en'', a] @ rest"
proof -
  have a: "splitSlash a = [a]" using assms(1) by (simp add: splitSlash_plain plain_name_def)
  have r: "splitSlash (joinSlash rest) = rest"
    using assms(2,3) by (simp add: splitSlash_joinSlash plain_no_slash)
  have t: "splitSlash ''translation/en'' = [''translation'', ''en'']" by simp
  have p: "list_all plain_name ([''translation'', ''en'', a] @ rest)"
    using assms(1,3) by (simp add: plain_name_def)
  have "concat (map splitSlash [''translation/en'', a, joinSlash rest]) = [''translation'', ''en'', a] @ rest"
    unfolding list.map concat.simps a r t by simp
  then show ?thesis
    unfolding translationPath_def path_join_def using normalize_plain [OF p, of B] by simp
qed

lemma commentPath_plain:
  assumes "plain_name a" and "rest \<noteq> []" and "list_all plain_name rest"
      and "str_includes (last rest) ''_translation-en-''"
  shows "commentPath B a (joinSlash rest)
           = B @ [''comment'', ''en'', a] @ butlast rest
               @ [str_replace ''translation-'' ''comment-'' (last rest)]"
proof -
  let ?x = "last rest"
  let ?c = "str_replace ''translation-'' ''comment-'' ?x"
  from assms(2,3) have x: "plain_name ?x" by (auto simp: list_all_iff)
  then have xs: "?x \<noteq> []" "CHR ''/'' \<notin> set ?x" by (simp_all add: plain_name_def)
  have c: "plain_name ?c" by (rule comment_filename_plain [OF xs(2) assms(4)])
  then have cs: "splitSlash ?c = [?c]" by (simp add: splitSlash_plain plain_name_def)
  have a: "splitSlash a = [a]" using assms(1) by (simp add: splitSlash_plain plain_name_def)
  have t: "splitSlash ''comment/en'' = [''comment'', ''en'']" by simp
  have head: "list_all plain_name [''comment'', ''en'', a]"
    using assms(1) by (simp add: plain_name_def)
  have init: "list_all plain_name (butlast rest)"
    using assms(3) by (auto simp: list_all_iff dest: in_set_butlastD)
  show ?thesis
  proof (cases "butlast rest = []")
    case True
    with assms(2) have one: "rest = [?x]" by (metis append_butlast_last_id append_Nil)
    have j: "joinSlash rest = ?x" by (subst one) simp
    have b: "str_basename ?x = ?x" by (rule str_basename_single [OF xs(2)])
    have d: "str_dirname ?x = ''.''" by (rule str_dirname_single [OF xs])
    have dot: "splitSlash ''.'' = [''.'']" by simp
    have "concat (map splitSlash [''comment/en'', a, ''.'', ?c]) = [''comment'', ''en'', a] @ [''.''] @ [?c]"
      unfolding list.map concat.simps a t cs dot by simp
    then have "commentPath B a (joinSlash rest)
                 = fold normalize_step [?c] (fold normalize_step [''.''] (fold normalize_step [''comment'', ''en'', a] B))"
      unfolding commentPath_def path_join_def j b d by simp
    also have "\<dots> = (B @ [''comment'', ''en'', a]) @ [?c]"
      unfolding normalize_plain [OF head] using normalize_plain [of "[?c]"] c by simp
    finally show ?thesis using True by simp
  next
    case False
    have split: "rest = butlast rest @ [?x]" using assms(2) by simp
    have j: "joinSlash rest = joinSlash (butlast rest) @ CHR ''/'' # ?x"
      by (subst split) (rule joinSlash_snoc [OF False])
    from joinSlash_hd [OF False init]
    have pre: "joinSlash (butlast rest) \<noteq> []" "hd (joinSlash (butlast rest)) \<noteq> CHR ''/''" by simp_all
    have b: "str_basename (joinSlash rest) = ?x"
      unfolding j by (rule str_basename_append [OF xs])
    have d: "str_dirname (joinSlash rest) = joinSlash (butlast rest)"
      unfolding j by (rule str_dirname_append [OF pre xs])
    have ds: "splitSlash (joinSlash (butlast rest)) = butlast rest"
      using False init by (simp add: splitSlash_joinSlash plain_no_slash)
    have all: "list_all plain_name ([''comment'', ''en'', a] @ butlast rest @ [?c])"
      using head init c by simp
    have "concat (map splitSlash [''comment/en'', a, joinSlash (butlast rest), ?c])
            = [''comment'', ''en'', a] @ butlast rest @ [?c]"
      unfolding list.map concat.simps a t cs ds by simp
    then show ?thesis
      unfolding commentPath_def path_join_def b d using normalize_plain [OF all, of B] by simp
  qed
qed

section \<open>Properties of the Legacy Backfill\<close>

lemma own_assign_new: "k \<notin> fst ` set obj \<Longrightarrow> own_assign k v obj = obj @ [(k, v)]"
  by (induction obj) auto

lemma is_undefined_not_key: "is_undefined (obj_get obj k) \<Longrightarrow> k \<notin> fst ` set obj"
  by (auto simp: is_undefined_obj_get map_of_eq_None_iff)

lemma process_leaf_skip:
  "\<not> is_undefined (obj_get (legacyMap s) uid) \<Longrightarrow> process_leaf r dd uid s = s"
  by (simp add: process_leaf_def)

lemma process_leaf_fetches:
  "\<exists>new. fetches (process_leaf r dd uid s) = fetches s @ new \<and> set (map fetch_uid new) \<subseteq> {uid}"
  by (auto simp: process_leaf_def Let_def split: option.splits list.splits)

lemma process_leaf_map:
  "(legacyMap (process_leaf r dd uid s) = legacyMap s
      \<and> count (process_leaf r dd uid s) = count s
      \<and> mapFile (process_leaf r dd uid s) = mapFile s)
   \<or> (\<exists>e. legacyMap (process_leaf r dd uid s) = legacyMap s @ [(uid, e)]
          \<and> uid \<notin> fst ` set (legacyMap s)
          \<and> count (process_leaf r dd uid s) = count s + 1
          \<and> mapFile (process_leaf r dd uid s)
              = (if (count s + 1) mod 10 = 0 then Some (legacyMap s @ [(uid, e)]) else mapFile s))"
proof (cases "is_undefined (obj_get (legacyMap s) uid)")
  case False
  then show ?thesis by (simp add: process_leaf_skip)
next
  case True
  then have "uid \<notin> fst ` set (legacyMap s)" by (rule is_undefined_not_key)
  then show ?thesis
    using True
    by (auto simp: process_leaf_def Let_def own_assign_new split: option.splits list.splits)
qed









lemma process_leaf_keeps_key:
  assumes "map_of (legacyMap s) k = Some e"
  shows "map_of (legacyMap (process_leaf r dd uid s)) k = Some e"
  using process_leaf_map [of r dd uid s]
proof (elim disjE conjE exE)
  assume "legacyMap (process_leaf r dd uid s) = legacyMap s"
  with assms show ?thesis by simp
next
  fix e'
  assume "legacyMap (process_leaf r dd uid s) = legacyMap s @ [(uid, e')]"
  with assms show ?thesis by simp
qed

lemma process_leaf_no_refetch:
  assumes "map_of (legacyMap s) k = Some e"
  shows "\<exists>new. fetches (process_leaf r dd uid s) = fetches s @ new \<and> k \<notin> set (map fetch_uid new)"
proof (cases "uid = k")
  case True
  with assms have "\<not> is_undefined (obj_get (legacyMap s) uid)"
    by (simp add: obj_get_own)
  then have "process_leaf r dd uid s = s" by (rule process_leaf_skip)
  then show ?thesis by simp
next
  case False
  from process_leaf_fetches [of r dd uid s] obtain new where
    "fetches (process_leaf r dd uid s) = fetches s @ new" "set (map fetch_uid new) \<subseteq> {uid}"
    by blast
  with False show ?thesis by auto
qed

lemma backfill_loop_no_refetch:
  assumes "map_of (legacyMap s) k = Some e"
  shows "map_of (legacyMap (backfill_loop r dd uids s)) k = Some e
       \<and> (\<exists>new. fetches (backfill_loop r dd uids s) = fetches s @ new
                 \<and> k \<notin> set (map fetch_uid new))"
  using assms
proof (induction uids arbitrary: s)
  case Nil
  then show ?case by (simp add: backfill_loop_def)
next
  case (Cons uid uids)
  have unfold: "backfill_loop r dd (uid # uids) s = backfill_loop r dd uids (process_leaf r dd uid s)"
    by (simp add: backfill_loop_def)
  from process_leaf_no_refetch [OF Cons.prems, of r dd uid] obtain new1 where
    n1: "fetches (process_leaf r dd uid s) = fetches s @ new1" "k \<notin> set (map fetch_uid new1)"
    by blast
  from Cons.IH [OF process_leaf_keeps_key [OF Cons.prems, of r dd uid]] obtain new2 where
    k: "map_of (legacyMap (backfill_loop r dd uids (process_leaf r dd uid s))) k = Some e"
    and n2: "fetches (backfill_loop r dd uids (process_leaf r dd uid s))
               = fetches (process_leaf r dd uid s) @ new2" "k \<notin> set (map fetch_uid new2)"
    by blast
  have "fetches (backfill_loop r dd (uid # uids) s) = fetches s @ (new1 @ new2)"
    unfolding unfold using n1(1) n2(1) by simp
  moreover have "k \<notin> set (map fetch_uid (new1 @ new2))" using n1(2) n2(2) by simp
  ultimately show ?case unfolding unfold using k by blast
qed

lemma run_no_refetch:
  assumes "legacyMapFile env = Some lm" and "map_of lm k = Some e"
  shows "k \<notin> set (fetched_uids (run dd env))
       \<and> (case run dd env of
             Inl err \<Rightarrow> True
           | Inr s \<Rightarrow> (\<exists>lm'. mapFile s = Some lm' \<and> map_of lm' k = Some e))"
proof (cases "indexFile env")
  case None
  with assms show ?thesis by (simp add: run_def fetched_uids_def initial_state_def)
next
  case (Some suttaIndex)
  show ?thesis
  proof (cases "menuFiles env")
    case None
    with Some show ?thesis by (simp add: run_def fetched_uids_def)
  next
    case (Some files)
    have init: "map_of (legacyMap (initial_state env)) k = Some e"
               "fetches (initial_state env) = []"
      using assms by (simp_all add: initial_state_def)
    from backfill_loop_no_refetch [OF init(1), of "api env" dd "missingLeaves suttaIndex files"]
    obtain new where
      "map_of (legacyMap (backfill_loop (api env) dd (missingLeaves suttaIndex files) (initial_state env))) k = Some e"
      "fetches (backfill_loop (api env) dd (missingLeaves suttaIndex files) (initial_state env)) = new"
      "k \<notin> set (map fetch_uid new)"
      using init(2) by auto
    then show ?thesis
      using Some \<open>indexFile env = Some suttaIndex\<close>
      by (simp add: run_def fetched_uids_def Let_def)
  qed
qed

text \<open>
  Claim C5. An identifier that has an entry in the legacy map when a backfill run starts
  is never the subject of a request of that run, nor of any later run that starts from
  the map file the runs before it left: whatever the index, the menus and the remote
  service of each run are.
\<close>

theorem backfill_never_refetches:
  assumes "map_of lm uid = Some e"
  shows "list_all (\<lambda>r. uid \<notin> set (fetched_uids r)) (run_sequence DATA_DIR (Some lm) envs)"
  using assms
proof (induction envs arbitrary: lm)
  case Nil
  then show ?case by simp
next
  case (Cons env envs)
  let ?env = "env\<lparr>legacyMapFile := Some lm\<rparr>"
  have f: "legacyMapFile ?env = Some lm" by simp
  from run_no_refetch [OF f Cons.prems, of DATA_DIR]
  have here: "uid \<notin> set (fetched_uids (run DATA_DIR ?env))"
    and after: "case run DATA_DIR ?env of
                  Inl err \<Rightarrow> True
                | Inr s \<Rightarrow> (\<exists>lm'. mapFile s = Some lm' \<and> map_of lm' uid = Some e)"
    by blast+
  show ?case
  proof (cases "run DATA_DIR ?env")
    case (Inl err)
    with here Cons.IH [OF Cons.prems] show ?thesis by simp
  next
    case (Inr s)
    with after obtain lm' where lm': "mapFile s = Some lm'" "map_of lm' uid = Some e" by auto
    from Cons.IH [OF lm'(2)] here Inr lm'(1) show ?thesis by simp
  qed
qed


lemma process_leaf_remote_ok:
  "is_undefined (obj_get (legacyMap s) uid) \<Longrightarrow>
   process_leaf remote_ok DATA_DIR uid s =
     (let m = own_assign uid \<lparr>legacy_author_uid = ''bodhi'',
                 legacy_path = backslashes_to_slashes
                    (path_relative (DATA_DIR @ [''bilara-data-published''])
                       (path_join (path_join (DATA_DIR @ [''bilara-data-published'', ''legacy''])
                                     [''en'', ''bodhi'']) [uid @ ''.html'']))\<rparr> (legacyMap s)
      in \<lparr>legacyMap = m, count = count s + 1,
          mapFile = (if (count s + 1) mod 10 = 0 then Some m else mapFile s),
          htmlFiles = htmlFiles s @ [(path_join (path_join (DATA_DIR @ [''bilara-data-published'', ''legacy''])
                                     [''en'', ''bodhi'']) [uid @ ''.html''], ''<p>text</p>'')],
          fetches = fetches s @ [FetchSuttaplex uid, FetchSutta uid ''bodhi'']\<rparr>)"
  by (simp add: process_leaf_def remote_ok_def first_plex_def legacy_text_def Let_def)


theorem backfill_never_refetches_witness:
  "map_of legacy_an11 ''an1.1''
     = Some \<lparr>legacy_author_uid = ''bodhi'', legacy_path = ''legacy/en/bodhi/an1.1.html''\<rparr>
   \<and> list_all (\<lambda>r. ''an1.1'' \<notin> set (fetched_uids r))
         (run_sequence data_dir (Some legacy_an11) [env_backfill, env_backfill])
   \<and> map fetched_uids (run_sequence data_dir (Some legacy_an11) [env_backfill, env_backfill])
       = [[''an1.2'', ''an1.2''], []]"
proof -
  have h: "map_of legacy_an11 ''an1.1''
     = Some \<lparr>legacy_author_uid = ''bodhi'', legacy_path = ''legacy/en/bodhi/an1.1.html''\<rparr>"
    by (simp add: legacy_an11_def)
  have ev: "map fetched_uids (run_sequence data_dir (Some legacy_an11) [env_backfill, env_backfill])
       = [[''an1.2'', ''an1.2''], []]"
    by (simp add: run_def env_backfill_def legacy_an11_def initial_state_def backfill_loop_def
          missingLeaves_def gather_leaves_def set_add_def fetched_uids_def
          process_leaf_remote_ok process_leaf_skip
          obj_get_def is_undefined_def object_prototype_names_def Let_def)
  show ?thesis
    using backfill_never_refetches [OF h, of data_dir "[env_backfill, env_backfill]"] h ev
    by simp
qed


end
